theory Spec2Isabelle
  imports Complex_Main "HOL-Library.AList" "HOL-Library.Log_Nat"
begin

section \<open>Python values\<close>

text \<open>
  The entity dictionaries of \<^verbatim>\<open>core/state.py\<close> are \<^verbatim>\<open>Dict[str, Any]\<close>. The values
  that the program itself stores are \<^verbatim>\<open>None\<close>, booleans, integers, floats and strings;
  the model is restricted to these. A Python float is an IEEE-754 double: a finite
  double is represented by the rational it denotes (the sign of zero is not recorded),
  the three non-finite doubles by constructors of their own.
\<close>

datatype pyfloat = Fin rat | PosInf | NegInf | NaN

datatype pyval = PNone | PBool bool | PInt int | PFloat pyfloat | PStr string

datatype py_error = KeyError | TypeError | ZeroDivisionError | OverflowError | ValueError

section \<open>Dictionaries\<close>

text \<open>
  A Python \<^verbatim>\<open>dict\<close> keeps its keys in insertion order; assigning to a key that is
  present replaces the value in place, assigning to a new key appends it. That is
  \<^const>\<open>AList.update\<close> on an association list. \<^verbatim>\<open>d.update(u)\<close> and the dictionary
  display \<^verbatim>\<open>{..., **u}\<close> assign the items of \<^verbatim>\<open>u\<close> one after the other.
\<close>

definition dict_update :: "('k \<times> 'v) list \<Rightarrow> ('k \<times> 'v) list \<Rightarrow> ('k \<times> 'v) list" where
  "dict_update d u = foldl (\<lambda>acc (k, v). AList.update k v acc) d u"

section \<open>core/state.py: GameState\<close>

type_synonym EntityData = "(string \<times> pyval) list"

text \<open>
  \<^verbatim>\<open>entities\<close> and \<^verbatim>\<open>_next_entity_id\<close> are class attributes of \<^verbatim>\<open>GameState\<close>; no method
  rebinds them on an instance, so there is one store and one counter.
\<close>

record GameState =
  entities :: "(int \<times> EntityData) list"
  next_entity_id :: int

definition game_state :: GameState where
  "game_state = \<lparr>entities = [], next_entity_id = 1\<rparr>"

definition entity_template :: "int \<Rightarrow> EntityData" where
  "entity_template entity_id =
     [(''id'', PInt entity_id), (''x'', PInt 0), (''y'', PInt 0),
      (''status'', PStr ''Existing''), (''brain_active'', PBool False)]"

definition add_entity :: "GameState \<Rightarrow> EntityData \<Rightarrow> int \<times> GameState" where
  "add_entity s initial_data =
     (let entity_id = next_entity_id s;
          entity_data = dict_update (entity_template entity_id) initial_data
      in (entity_id,
          s\<lparr>entities := AList.update entity_id entity_data (entities s),
            next_entity_id := next_entity_id s + 1\<rparr>))"

definition update_entity :: "GameState \<Rightarrow> int \<Rightarrow> EntityData \<Rightarrow> GameState" where
  "update_entity s entity_id updates =
     (case map_of (entities s) entity_id of
        None \<Rightarrow> s
      | Some d \<Rightarrow> s\<lparr>entities := AList.update entity_id (dict_update d updates) (entities s)\<rparr>)"

definition get_entity_ids :: "GameState \<Rightarrow> int list" where
  "get_entity_ids s = map fst (entities s)"

definition get_entity_data :: "GameState \<Rightarrow> int \<Rightarrow> EntityData" where
  "get_entity_data s entity_id =
     (case map_of (entities s) entity_id of None \<Rightarrow> [] | Some d \<Rightarrow> d)"

text \<open>
  Modelled from the spec: removal of an entity. The source has no operation that
  removes an entity; the specification requires that removal "invalidates only that
  identity, never reassigns it". The model deletes the key from the store and leaves
  the counter alone; removing an identity that is not live changes nothing.
\<close>

definition remove_entity :: "GameState \<Rightarrow> int \<Rightarrow> GameState" where
  "remove_entity s entity_id = s\<lparr>entities := AList.delete entity_id (entities s)\<rparr>"

subsection \<open>Sequences of store operations\<close>

datatype store_op = Create EntityData | Update int EntityData | Remove int

text \<open>One operation: the identities it returned (one for a create, none otherwise)
  and the store after it.\<close>

fun apply_store_op :: "GameState \<Rightarrow> store_op \<Rightarrow> int list \<times> GameState" where
  "apply_store_op s (Create a) = ([fst (add_entity s a)], snd (add_entity s a))"
| "apply_store_op s (Update i u) = ([], update_entity s i u)"
| "apply_store_op s (Remove i) = ([], remove_entity s i)"

fun run_ops :: "GameState \<Rightarrow> store_op list \<Rightarrow> int list \<times> GameState" where
  "run_ops s [] = ([], s)"
| "run_ops s (x # xs) =
     (let (ids, s') = apply_store_op s x; (ids', s'') = run_ops s' xs
      in (ids @ ids', s''))"

text \<open>Every live identity was issued: it lies below the counter.\<close>

definition store_inv :: "GameState \<Rightarrow> bool" where
  "store_inv s \<longleftrightarrow>
     distinct (map fst (entities s)) \<and> (\<forall>i \<in> fst ` set (entities s). i < next_entity_id s)"

text \<open>The operations of a sequence that carry attributes never mention the key \<^verbatim>\<open>id\<close>.\<close>

fun op_keeps_id :: "store_op \<Rightarrow> bool" where
  "op_keeps_id (Create a) = (''id'' \<notin> fst ` set a)"
| "op_keeps_id (Update i u) = (''id'' \<notin> fst ` set u)"
| "op_keeps_id (Remove i) = True"

definition ids_match :: "GameState \<Rightarrow> bool" where
  "ids_match s \<longleftrightarrow> (\<forall>(i, d) \<in> set (entities s). map_of d ''id'' = Some (PInt i))"

section \<open>Python numbers\<close>

text \<open>
  Integers are unbounded. The arithmetic on floats is IEEE-754 binary64 with rounding
  to nearest, ties to even: the result of an operation is the exact rational result
  rounded to 53 significant bits, with the smallest quantum \<open>2\<^sup>-\<^sup>1\<^sup>0\<^sup>7\<^sup>4\<close>, and it is
  infinite when the rounded value reaches \<open>2\<^sup>1\<^sup>0\<^sup>2\<^sup>4\<close>.
\<close>

definition bind_err :: "'e + 'a \<Rightarrow> ('a \<Rightarrow> 'e + 'b) \<Rightarrow> 'e + 'b" where
  "bind_err m f = (case m of Inl e \<Rightarrow> Inl e | Inr v \<Rightarrow> f v)"

definition pow2 :: "int \<Rightarrow> rat" where
  "pow2 k = (if 0 \<le> k then 2 ^ nat k else 1 / 2 ^ nat (- k))"

definition round_half_even :: "rat \<Rightarrow> int" where
  "round_half_even x =
     (let f = \<lfloor>x\<rfloor>; d = x - of_int f
      in if d < 1 / 2 then f else if 1 / 2 < d then f + 1 else if even f then f else f + 1)"

text \<open>The binary exponent of a positive rational: the greatest \<open>e\<close> with \<open>2\<^sup>e \<le> x\<close>.\<close>

definition ilog2 :: "rat \<Rightarrow> int" where
  "ilog2 x = (if 1 \<le> x then bitlen \<lfloor>x\<rfloor> - 1 else - bitlen (\<lceil>1 / x\<rceil> - 1))"

definition round_double :: "rat \<Rightarrow> rat" where
  "round_double x =
     (if x = 0 then 0
      else let q = pow2 (max (ilog2 \<bar>x\<bar> - 52) (- 1074))
           in of_int (round_half_even (x / q)) * q)"

definition double_of_rat :: "rat \<Rightarrow> pyfloat" where
  "double_of_rat x =
     (let r = round_double x
      in if 2 ^ 1024 \<le> r then PosInf else if r \<le> - (2 ^ 1024) then NegInf else Fin r)"

text \<open>Conversion of an \<^verbatim>\<open>int\<close> to a float, as an arithmetic operator does it for a mixed
  operation: correctly rounded, \<^verbatim>\<open>OverflowError\<close> when the integer is too large.\<close>

definition float_of_int :: "int \<Rightarrow> py_error + rat" where
  "float_of_int i =
     (let r = round_double (of_int i)
      in if 2 ^ 1024 \<le> \<bar>r\<bar> then Inl OverflowError else Inr r)"

text \<open>\<^verbatim>\<open>a / b\<close> on two ints: the correctly rounded quotient.\<close>

definition int_truediv :: "int \<Rightarrow> int \<Rightarrow> py_error + pyfloat" where
  "int_truediv a b =
     (if b = 0 then Inl ZeroDivisionError
      else let r = round_double (of_int a / of_int b)
           in if 2 ^ 1024 \<le> \<bar>r\<bar> then Inl OverflowError else Inr (Fin r))"

fun float_add :: "pyfloat \<Rightarrow> pyfloat \<Rightarrow> pyfloat" where
  "float_add (Fin a) (Fin b) = double_of_rat (a + b)"
| "float_add NaN _ = NaN"
| "float_add _ NaN = NaN"
| "float_add PosInf NegInf = NaN"
| "float_add NegInf PosInf = NaN"
| "float_add PosInf _ = PosInf"
| "float_add _ PosInf = PosInf"
| "float_add NegInf _ = NegInf"
| "float_add _ NegInf = NegInf"

text \<open>A float compared with an int: Python compares the exact values.\<close>

fun float_lt_int :: "pyfloat \<Rightarrow> int \<Rightarrow> bool" where
  "float_lt_int (Fin r) k = (r < of_int k)"
| "float_lt_int NegInf k = True"
| "float_lt_int PosInf k = False"
| "float_lt_int NaN k = False"

datatype pynum = NInt int | NFloat pyfloat

text \<open>The values that take part in arithmetic; \<^verbatim>\<open>bool\<close> is a subclass of \<^verbatim>\<open>int\<close>.\<close>

fun as_number :: "pyval \<Rightarrow> pynum option" where
  "as_number (PInt i) = Some (NInt i)"
| "as_number (PBool b) = Some (NInt (if b then 1 else 0))"
| "as_number (PFloat f) = Some (NFloat f)"
| "as_number PNone = None"
| "as_number (PStr s) = None"

text \<open>\<^verbatim>\<open>v < k\<close> for an int \<open>k\<close>.\<close>

definition py_lt_int :: "pyval \<Rightarrow> int \<Rightarrow> py_error + bool" where
  "py_lt_int v k =
     (case as_number v of
        None \<Rightarrow> Inl TypeError
      | Some (NInt i) \<Rightarrow> Inr (i < k)
      | Some (NFloat f) \<Rightarrow> Inr (float_lt_int f k))"

text \<open>\<^verbatim>\<open>v + f\<close> for a float \<open>f\<close>.\<close>

definition py_add_float :: "pyval \<Rightarrow> pyfloat \<Rightarrow> py_error + pyfloat" where
  "py_add_float v f =
     (case as_number v of
        None \<Rightarrow> Inl TypeError
      | Some (NInt i) \<Rightarrow> bind_err (float_of_int i) (\<lambda>a. Inr (float_add (Fin a) f))
      | Some (NFloat a) \<Rightarrow> Inr (float_add a f))"

definition trunc :: "rat \<Rightarrow> int" where
  "trunc x = (if 0 \<le> x then \<lfloor>x\<rfloor> else \<lceil>x\<rceil>)"

text \<open>C's \<^verbatim>\<open>fmod\<close>: exact, with the sign of the dividend.\<close>

definition fmod :: "rat \<Rightarrow> rat \<Rightarrow> rat" where
  "fmod vx wx = vx - wx * of_int (trunc (vx / wx))"

text \<open>
  Floor division of floats, for a finite divisor other than zero. CPython computes
  \<^verbatim>\<open>mod = fmod(vx, wx); div = (vx - mod) / wx\<close>, subtracts one from \<^verbatim>\<open>div\<close> when
  \<^verbatim>\<open>mod\<close> is not zero and its sign differs from the divisor's, and then snaps:
  \<^verbatim>\<open>floordiv = floor(div); if (div - floordiv > 0.5) floordiv += 1.0\<close>, or zero when
  \<^verbatim>\<open>div\<close> is zero. For a dividend that is not finite \<^verbatim>\<open>fmod\<close> gives NaN and so does
  every later step.
\<close>

fun float_floor_div :: "pyfloat \<Rightarrow> rat \<Rightarrow> pyfloat" where
  "float_floor_div (Fin vx) wx =
     (let m = fmod vx wx;
          d0 = round_double (round_double (vx - m) / wx)
      in if 2 ^ 1024 \<le> d0 then PosInf
         else if d0 \<le> - (2 ^ 1024) then NegInf
         else let d = (if m \<noteq> 0 \<and> ((wx < 0) \<noteq> (m < 0)) then round_double (d0 - 1) else d0)
              in if d \<noteq> 0
                 then let fd = of_int \<lfloor>d\<rfloor>
                      in Fin (if 1 / 2 < round_double (d - fd) then round_double (fd + 1) else fd)
                 else Fin 0)"
| "float_floor_div _ wx = NaN"

text \<open>\<^verbatim>\<open>v // c\<close> for an int \<open>c\<close>.\<close>

definition py_floordiv_int :: "pyval \<Rightarrow> int \<Rightarrow> py_error + pynum" where
  "py_floordiv_int v c =
     (case as_number v of
        None \<Rightarrow> Inl TypeError
      | Some (NInt i) \<Rightarrow> if c = 0 then Inl ZeroDivisionError else Inr (NInt (i div c))
      | Some (NFloat f) \<Rightarrow>
          bind_err (float_of_int c)
            (\<lambda>wx. if wx = 0 then Inl ZeroDivisionError else Inr (NFloat (float_floor_div f wx))))"

text \<open>\<^verbatim>\<open>int(n)\<close> of a number.\<close>

fun py_int :: "pynum \<Rightarrow> py_error + int" where
  "py_int (NInt i) = Inr i"
| "py_int (NFloat (Fin r)) = Inr (trunc r)"
| "py_int (NFloat NaN) = Inl ValueError"
| "py_int (NFloat _) = Inl OverflowError"

section \<open>core/config.py\<close>

text \<open>
  The configuration module is not among the sources. The two constants that the
  modelled code reads are parameters; as pixel sizes they are Python ints.
\<close>

record Config =
  GAME_SCREEN_WIDTH :: int
  CELL_SIZE :: int

section \<open>game/grid.py: Grid\<close>

text \<open>The first argument of both conversions is \<^verbatim>\<open>self.cell_size\<close>, which
  \<^verbatim>\<open>__init__\<close> sets to \<^verbatim>\<open>config.CELL_SIZE\<close>.\<close>

definition screen_to_grid :: "int \<Rightarrow> pyval \<Rightarrow> pyval \<Rightarrow> py_error + (int \<times> int)" where
  "screen_to_grid cell_size x y =
     bind_err (py_floordiv_int x cell_size) (\<lambda>qx.
     bind_err (py_int qx) (\<lambda>col.
     bind_err (py_floordiv_int y cell_size) (\<lambda>qy.
     bind_err (py_int qy) (\<lambda>row. Inr (col, row)))))"

text \<open>\<^verbatim>\<open>n * cell_size + cell_size / 2\<close>: an int product, a true division of ints, and
  an addition that converts the product to a float.\<close>

definition cell_center :: "int \<Rightarrow> int \<Rightarrow> py_error + pyfloat" where
  "cell_center cell_size n =
     bind_err (int_truediv cell_size 2) (\<lambda>half.
     bind_err (float_of_int (n * cell_size)) (\<lambda>a. Inr (float_add (Fin a) half)))"

definition grid_to_screen_center :: "int \<Rightarrow> int \<Rightarrow> int \<Rightarrow> py_error + (pyfloat \<times> pyfloat)" where
  "grid_to_screen_center cell_size col row =
     bind_err (cell_center cell_size col) (\<lambda>center_x.
     bind_err (cell_center cell_size row) (\<lambda>center_y. Inr (center_x, center_y)))"

section \<open>gui/variable_monitor.py: VariableMonitor, as the renderer sees it\<close>

text \<open>
  \<^verbatim>\<open>update_data\<close> and \<^verbatim>\<open>update_entity_list\<close> hand their argument to the Tk thread with
  \<^verbatim>\<open>root.after\<close> when the monitor is running and its root window exists, and drop it
  otherwise. The model records the values handed over, in order; what the Tk thread
  does with them is not modelled.
\<close>

record VariableMonitor =
  mon_is_running :: bool
  mon_root :: bool
  scheduled_data :: "EntityData list"
  scheduled_entity_lists :: "int list list"

definition update_data :: "VariableMonitor \<Rightarrow> EntityData \<Rightarrow> VariableMonitor" where
  "update_data m new_data =
     (if mon_is_running m \<and> mon_root m
      then m\<lparr>scheduled_data := scheduled_data m @ [new_data]\<rparr> else m)"

definition update_entity_list :: "VariableMonitor \<Rightarrow> int list \<Rightarrow> VariableMonitor" where
  "update_entity_list m new_entity_ids =
     (if mon_is_running m \<and> mon_root m
      then m\<lparr>scheduled_entity_lists := scheduled_entity_lists m @ [new_entity_ids]\<rparr> else m)"

section \<open>game/renderer.py: PygameRenderer\<close>

record PygameRenderer =
  monitor :: "VariableMonitor option"
  state :: GameState
  selected_entity_id :: "int option"
  is_running :: bool
  frame_count :: int
  global_metrics :: EntityData

definition PygameRenderer_init :: "VariableMonitor option \<Rightarrow> GameState \<Rightarrow> PygameRenderer" where
  "PygameRenderer_init mon game_state_instance =
     \<lparr>monitor = mon, state = game_state_instance, selected_entity_id = None,
      is_running = True, frame_count = 0,
      global_metrics = [(''Frame Count'', PInt 0), (''Current FPS'', PFloat (Fin 0)),
                        (''Total Entities'', PInt 0), (''System Status'', PStr ''Running'')]\<rparr>"

definition set_selected_entity :: "PygameRenderer \<Rightarrow> int option \<Rightarrow> PygameRenderer" where
  "set_selected_entity r entity_id = r\<lparr>selected_entity_id := entity_id\<rparr>"

definition update_global_metrics :: "PygameRenderer \<Rightarrow> string \<Rightarrow> pyval \<Rightarrow> PygameRenderer" where
  "update_global_metrics r key v = r\<lparr>global_metrics := AList.update key v (global_metrics r)\<rparr>"

definition dict_item :: "EntityData \<Rightarrow> string \<Rightarrow> py_error + pyval" where
  "dict_item d key = (case map_of d key of None \<Rightarrow> Inl KeyError | Some v \<Rightarrow> Inr v)"

definition move_speed :: pyfloat where
  "move_speed = Fin (3 / 2)"

text \<open>The body of the movement loop up to the dictionary \<^verbatim>\<open>updates\<close>, for one entity
  with attributes \<open>data\<close>.\<close>

definition entity_updates :: "Config \<Rightarrow> EntityData \<Rightarrow> py_error + EntityData" where
  "entity_updates cfg data =
     bind_err (dict_item data ''x'') (\<lambda>x.
     bind_err (py_lt_int x (GAME_SCREEN_WIDTH cfg - CELL_SIZE cfg)) (\<lambda>b.
     bind_err (if b then py_add_float x move_speed else py_add_float (PInt 0) move_speed) (\<lambda>new_x.
     bind_err (dict_item data ''y'') (\<lambda>new_y.
     bind_err (screen_to_grid (CELL_SIZE cfg) (PFloat new_x) new_y) (\<lambda>(col, row).
       Inr [(''x'', PFloat new_x), (''y'', new_y),
            (''grid_col'', PInt col), (''grid_row'', PInt row)])))))"

text \<open>The movement loop over the items of the store. An exception leaves the loop and
  \<^verbatim>\<open>update\<close>.\<close>

fun move_entities :: "Config \<Rightarrow> (int \<times> EntityData) list \<Rightarrow> GameState \<Rightarrow> py_error + GameState" where
  "move_entities cfg [] s = Inr s"
| "move_entities cfg ((entity_id, data) # rest) s =
     bind_err (entity_updates cfg data)
       (\<lambda>updates. move_entities cfg rest (update_entity s entity_id updates))"

text \<open>
  One call of \<^verbatim>\<open>update\<close>, in the three parts that the source numbers. The argument
  \<open>fps\<close> is the value of \<^verbatim>\<open>round(self.clock.get_fps(), 1)\<close> in this frame, a reading
  of the pygame clock.
\<close>

text \<open>Part 2, the three calls of \<^verbatim>\<open>update_global_metrics\<close>.\<close>

definition prepare_metrics :: "pyfloat \<Rightarrow> PygameRenderer \<Rightarrow> PygameRenderer" where
  "prepare_metrics fps r =
     update_global_metrics
       (update_global_metrics
          (update_global_metrics r ''Frame Count'' (PInt (frame_count r)))
          ''Current FPS'' (PFloat fps))
       ''Total Entities'' (PInt (int (length (entities (state r)))))"

text \<open>Part 2, the identity list: every 60th frame, when there is a monitor.\<close>

definition send_entity_list :: "PygameRenderer \<Rightarrow> PygameRenderer" where
  "send_entity_list r =
     (case monitor r of
        Some m \<Rightarrow>
          if frame_count r mod 60 = 0
          then r\<lparr>monitor := Some (update_entity_list m (get_entity_ids (state r)))\<rparr>
          else r
      | None \<Rightarrow> r)"

text \<open>Part 3, the snapshot: every 15th frame, when there is a monitor.\<close>

definition data_to_send :: "PygameRenderer \<Rightarrow> EntityData" where
  "data_to_send r =
     (case selected_entity_id r of
        None \<Rightarrow> global_metrics r
      | Some i \<Rightarrow> get_entity_data (state r) i)"

definition send_data :: "PygameRenderer \<Rightarrow> PygameRenderer" where
  "send_data r =
     (case monitor r of
        Some m \<Rightarrow>
          if frame_count r mod 15 = 0
          then r\<lparr>monitor := Some (update_data m (data_to_send r))\<rparr>
          else r
      | None \<Rightarrow> r)"

definition update :: "Config \<Rightarrow> pyfloat \<Rightarrow> PygameRenderer \<Rightarrow> py_error + PygameRenderer" where
  "update cfg fps r =
     bind_err (move_entities cfg (entities (state r)) (state r)) (\<lambda>s'.
       Inr (send_data (send_entity_list (prepare_metrics fps
              (r\<lparr>frame_count := frame_count r + 1, state := s'\<rparr>)))))"

text \<open>The snapshots handed to the monitor so far.\<close>

definition snapshots :: "PygameRenderer \<Rightarrow> EntityData list" where
  "snapshots r = (case monitor r of None \<Rightarrow> [] | Some m \<Rightarrow> scheduled_data m)"

text \<open>What happens to a renderer between and in frames: a frame with its clock
  reading, or a call of \<^verbatim>\<open>set_selected_entity\<close> from the monitor.\<close>

datatype event = Frame pyfloat | Select "int option"

fun step :: "Config \<Rightarrow> PygameRenderer \<Rightarrow> event \<Rightarrow> py_error + PygameRenderer" where
  "step cfg r (Frame fps) = update cfg fps r"
| "step cfg r (Select entity_id) = Inr (set_selected_entity r entity_id)"

fun run_events :: "Config \<Rightarrow> PygameRenderer \<Rightarrow> event list \<Rightarrow> py_error + PygameRenderer" where
  "run_events cfg r [] = Inr r"
| "run_events cfg r (e # es) = bind_err (step cfg r e) (\<lambda>r'. run_events cfg r' es)"

section \<open>main.py\<close>

definition get_center_coords :: "Config \<Rightarrow> int \<Rightarrow> int \<Rightarrow> py_error + (pyfloat \<times> pyfloat)" where
  "get_center_coords cfg col row =
     bind_err (cell_center (CELL_SIZE cfg) col) (\<lambda>cx.
     bind_err (cell_center (CELL_SIZE cfg) row) (\<lambda>cy. Inr (cx, cy)))"

text \<open>The store after the two \<^verbatim>\<open>add_entity\<close> calls of \<^verbatim>\<open>main\<close>.\<close>

definition main_store :: "Config \<Rightarrow> py_error + GameState" where
  "main_store cfg =
     bind_err (get_center_coords cfg 3 5) (\<lambda>(x1, y1).
     let s1 = snd (add_entity game_state
                [(''x'', PFloat x1), (''y'', PFloat y1), (''name'', PStr ''First Agent''),
                 (''manual_spawn'', PBool True), (''status'', PStr ''Spawned'')])
     in bind_err (get_center_coords cfg 10 8) (\<lambda>(x2, y2).
        Inr (snd (add_entity s1
                [(''x'', PFloat x2), (''y'', PFloat y2), (''name'', PStr ''Second Agent''),
                 (''manual_spawn'', PBool True), (''status'', PStr ''Spawned'')]))))"

text \<open>\<^verbatim>\<open>main\<close> goes on only with a monitor that is running; it then builds the renderer
  on the monitor and the store.\<close>

definition started_monitor :: VariableMonitor where
  "started_monitor =
     \<lparr>mon_is_running = True, mon_root = True, scheduled_data = [], scheduled_entity_lists = []\<rparr>"

definition main_renderer :: "Config \<Rightarrow> py_error + PygameRenderer" where
  "main_renderer cfg =
     bind_err (main_store cfg) (\<lambda>s. Inr (PygameRenderer_init (Some started_monitor) s))"

text \<open>The value of a metric in the metrics cache.\<close>

definition metric :: "PygameRenderer \<Rightarrow> string \<Rightarrow> pyval option" where
  "metric r key = map_of (global_metrics r) key"

text \<open>The metrics cache has its four keys in the order of \<^verbatim>\<open>__init__\<close>.\<close>

definition metrics_shape :: "PygameRenderer \<Rightarrow> bool" where
  "metrics_shape r \<longleftrightarrow>
     (\<exists>a b c. global_metrics r = [(''Frame Count'', a), (''Current FPS'', b),
                                  (''Total Entities'', c), (''System Status'', PStr ''Running'')])"

section \<open>Invariants of the movement loop\<close>

text \<open>A coordinate that the movement loop can process: a finite, non-negative float far
  below the largest double.\<close>

definition good_coord :: "pyval \<Rightarrow> bool" where
  "good_coord v \<longleftrightarrow> (\<exists>r. v = PFloat (Fin r) \<and> 0 \<le> r \<and> r \<le> 2 ^ 1000)"

definition movable :: "EntityData \<Rightarrow> bool" where
  "movable d \<longleftrightarrow>
     (\<exists>x y. map_of d ''x'' = Some x \<and> map_of d ''y'' = Some y \<and> good_coord x \<and> good_coord y)"

definition all_movable :: "GameState \<Rightarrow> bool" where
  "all_movable s \<longleftrightarrow> (\<forall>p \<in> set (entities s). movable (snd p))"

definition good_config :: "Config \<Rightarrow> bool" where
  "good_config cfg \<longleftrightarrow>
     0 < CELL_SIZE cfg \<and> CELL_SIZE cfg \<le> 2 ^ 990 \<and> GAME_SCREEN_WIDTH cfg \<le> 2 ^ 990"

text \<open>The renderer has a monitor that accepts what it is handed.\<close>

definition live_monitor :: "PygameRenderer \<Rightarrow> bool" where
  "live_monitor r \<longleftrightarrow> (\<exists>m. monitor r = Some m \<and> mon_is_running m \<and> mon_root m)"

section \<open>Dictionary lemmas\<close>

lemma map_of_dict_update_other:
  "k \<notin> fst ` set u \<Longrightarrow> map_of (dict_update d u) k = map_of d k"
  unfolding dict_update_def
  by (induction u arbitrary: d) (auto simp: update_conv')

lemma map_of_dict_update_distinct:
  "distinct (map fst u) \<Longrightarrow>
   map_of (dict_update d u) k = (case map_of u k of Some v \<Rightarrow> Some v | None \<Rightarrow> map_of d k)"
  unfolding dict_update_def
proof (induction u arbitrary: d)
  case Nil
  then show ?case by simp
next
  case (Cons p u)
  obtain k' v' where p: "p = (k', v')" by (cases p)
  from Cons.prems have nk: "k' \<notin> fst ` set u" and du: "distinct (map fst u)"
    by (auto simp: p)
  show ?case
  proof (cases "k = k'")
    case True
    with nk have "map_of u k = None" by (simp add: map_of_eq_None_iff)
    with Cons.IH [OF du, of "AList.update k' v' d"] True show ?thesis
      by (simp add: p update_conv')
  next
    case False
    with Cons.IH [OF du, of "AList.update k' v' d"] show ?thesis
      by (simp add: p update_conv' split: option.splits)
  qed
qed

lemma keys_dict_update: "fst ` set (dict_update d u) = fst ` set d \<union> fst ` set u"
  unfolding dict_update_def
proof (induction u arbitrary: d)
  case Nil
  then show ?case by simp
next
  case (Cons p u)
  obtain k' v' where p: "p = (k', v')" by (cases p)
  have "fst ` set (AList.update k' v' d) = insert k' (fst ` set d)"
    using dom_update [of k' v' d] by (simp add: dom_map_of_conv_image_fst)
  with Cons.IH [of "AList.update k' v' d"] show ?case
    by (auto simp: p)
qed

lemma map_fst_dict_update_prefix:
  "\<exists>extra. map fst (dict_update d u) = map fst d @ extra"
  unfolding dict_update_def
proof (induction u arbitrary: d)
  case Nil
  then show ?case by simp
next
  case (Cons p u)
  obtain k' v' where p: "p = (k', v')" by (cases p)
  have "\<exists>e. map fst (AList.update k' v' d) = map fst d @ e"
    by (induction d) auto
  then obtain e where e: "map fst (AList.update k' v' d) = map fst d @ e" ..
  from Cons.IH [of "AList.update k' v' d"] obtain e'
    where "map fst (foldl (\<lambda>acc (k, v). AList.update k v acc) (AList.update k' v' d) u)
           = map fst (AList.update k' v' d) @ e'" ..
  with e show ?case by (auto simp: p)
qed

section \<open>Store lemmas\<close>

lemma keys_alist_update: "fst ` set (AList.update k v es) = insert k (fst ` set es)"
  using dom_update [of k v es] by (simp add: dom_map_of_conv_image_fst)

lemma set_alist_update_cases:
  "p \<in> set (AList.update k v es) \<Longrightarrow> p = (k, v) \<or> p \<in> set es"
  by (induction es) (auto split: if_splits)

lemma set_alist_delete_subset: "set (AList.delete k es) \<subseteq> set es"
  by (induction es) auto

lemma keys_alist_delete: "fst ` set (AList.delete k es) = fst ` set es - {k}"
  by (induction es) auto

lemma add_entity_fst [simp]: "fst (add_entity s a) = next_entity_id s"
  by (simp add: add_entity_def Let_def)

lemma add_entity_next [simp]:
  "next_entity_id (snd (add_entity s a)) = next_entity_id s + 1"
  by (simp add: add_entity_def Let_def)

lemma add_entity_entities:
  "entities (snd (add_entity s a)) =
     AList.update (next_entity_id s) (dict_update (entity_template (next_entity_id s)) a)
       (entities s)"
  by (simp add: add_entity_def Let_def)

lemma update_entity_next [simp]:
  "next_entity_id (update_entity s i u) = next_entity_id s"
  by (simp add: update_entity_def split: option.splits)

lemma update_entity_keys [simp]:
  "fst ` set (entities (update_entity s i u)) = fst ` set (entities s)"
proof (cases "map_of (entities s) i")
  case None
  then show ?thesis by (simp add: update_entity_def)
next
  case (Some d)
  then have "i \<in> fst ` set (entities s)"
    by (metis domI dom_map_of_conv_image_fst)
  with Some show ?thesis
    by (auto simp: update_entity_def keys_alist_update)
qed

lemma update_entity_map_fst [simp]:
  "map fst (entities (update_entity s i u)) = map fst (entities s)"
proof (cases "map_of (entities s) i")
  case None
  then show ?thesis by (simp add: update_entity_def)
next
  case (Some d)
  then have "i \<in> fst ` set (entities s)"
    by (metis domI dom_map_of_conv_image_fst)
  with Some show ?thesis
    by (simp add: update_entity_def update_keys)
qed

lemma remove_entity_next [simp]:
  "next_entity_id (remove_entity s i) = next_entity_id s"
  by (simp add: remove_entity_def)

lemma remove_entity_keys [simp]:
  "fst ` set (entities (remove_entity s i)) = fst ` set (entities s) - {i}"
  by (simp add: remove_entity_def keys_alist_delete)

lemma store_inv_game_state: "store_inv game_state"
  by (simp add: store_inv_def game_state_def)

lemma store_inv_add: "store_inv s \<Longrightarrow> store_inv (snd (add_entity s a))"
  unfolding store_inv_def
  by (auto simp: add_entity_entities keys_alist_update distinct_update)

lemma store_inv_update: "store_inv s \<Longrightarrow> store_inv (update_entity s i u)"
  unfolding store_inv_def by simp

lemma store_inv_remove: "store_inv s \<Longrightarrow> store_inv (remove_entity s i)"
  unfolding store_inv_def
  by (auto simp: remove_entity_def distinct_delete keys_alist_delete)

lemma run_ops_append:
  "run_ops s (xs @ ys) =
     (fst (run_ops s xs) @ fst (run_ops (snd (run_ops s xs)) ys),
      snd (run_ops (snd (run_ops s xs)) ys))"
  by (induction xs arbitrary: s) (auto simp: Let_def split: prod.splits)

lemma run_ops_facts:
  assumes "store_inv s"
  shows "store_inv (snd (run_ops s ops))
       \<and> next_entity_id s \<le> next_entity_id (snd (run_ops s ops))
       \<and> sorted_wrt (<) (fst (run_ops s ops))
       \<and> (\<forall>i \<in> set (fst (run_ops s ops)).
             next_entity_id s \<le> i \<and> i < next_entity_id (snd (run_ops s ops)))
       \<and> fst ` set (entities (snd (run_ops s ops)))
             \<subseteq> fst ` set (entities s) \<union> set (fst (run_ops s ops))"
  using assms
proof (induction ops arbitrary: s)
  case Nil
  then show ?case by simp
next
  case (Cons x xs)
  show ?case
  proof (cases x)
    case (Create a)
    let ?s1 = "snd (add_entity s a)"
    have inv1: "store_inv ?s1" using Cons.prems by (rule store_inv_add)
    note IH = Cons.IH [OF inv1]
    have run: "run_ops s (x # xs)
        = (next_entity_id s # fst (run_ops ?s1 xs), snd (run_ops ?s1 xs))"
      by (simp add: Create split: prod.splits)
    have keys1: "fst ` set (entities ?s1) = insert (next_entity_id s) (fst ` set (entities s))"
      by (simp add: add_entity_entities keys_alist_update)
    from IH have a: "store_inv (snd (run_ops ?s1 xs))"
      and b: "next_entity_id s + 1 \<le> next_entity_id (snd (run_ops ?s1 xs))"
      and c: "sorted_wrt (<) (fst (run_ops ?s1 xs))"
      and d: "\<forall>i \<in> set (fst (run_ops ?s1 xs)).
                next_entity_id s + 1 \<le> i \<and> i < next_entity_id (snd (run_ops ?s1 xs))"
      and e: "fst ` set (entities (snd (run_ops ?s1 xs)))
                \<subseteq> fst ` set (entities ?s1) \<union> set (fst (run_ops ?s1 xs))"
      by simp_all
    from d have d': "\<forall>i \<in> set (fst (run_ops ?s1 xs)). next_entity_id s < i" by auto
    from a b c d d' e keys1 show ?thesis
      unfolding run by auto
  next
    case (Update i u)
    let ?s1 = "update_entity s i u"
    have inv1: "store_inv ?s1" using Cons.prems by (rule store_inv_update)
    have run: "run_ops s (x # xs) = run_ops ?s1 xs"
      by (simp add: Update split: prod.splits)
    from Cons.IH [OF inv1] show ?thesis
      unfolding run by simp
  next
    case (Remove i)
    let ?s1 = "remove_entity s i"
    have inv1: "store_inv ?s1" using Cons.prems by (rule store_inv_remove)
    have run: "run_ops s (x # xs) = run_ops ?s1 xs"
      by (simp add: Remove split: prod.splits)
    from Cons.IH [OF inv1] show ?thesis
      unfolding run by auto
  qed
qed

lemma absent_get_entity_data:
  "i \<notin> fst ` set (entities s) \<Longrightarrow> get_entity_data s i = []"
proof -
  assume "i \<notin> fst ` set (entities s)"
  then have "map_of (entities s) i = None" by (simp add: map_of_eq_None_iff)
  then show ?thesis by (simp add: get_entity_data_def)
qed

lemma ids_match_add:
  assumes "ids_match s" and "''id'' \<notin> fst ` set a"
  shows "ids_match (snd (add_entity s a))"
proof -
  have new: "map_of (dict_update (entity_template (next_entity_id s)) a) ''id''
               = Some (PInt (next_entity_id s))"
    using assms(2) by (simp add: map_of_dict_update_other entity_template_def)
  show ?thesis
    unfolding ids_match_def add_entity_entities
    using assms(1) new
    by (auto simp: ids_match_def dest!: set_alist_update_cases)
qed

lemma ids_match_update:
  assumes "ids_match s" and "''id'' \<notin> fst ` set u"
  shows "ids_match (update_entity s i u)"
proof (cases "map_of (entities s) i")
  case None
  with assms(1) show ?thesis by (simp add: update_entity_def)
next
  case (Some d)
  then have "(i, d) \<in> set (entities s)" by (rule map_of_SomeD)
  with assms(1) have "map_of d ''id'' = Some (PInt i)"
    by (auto simp: ids_match_def)
  with assms(2) have new: "map_of (dict_update d u) ''id'' = Some (PInt i)"
    by (simp add: map_of_dict_update_other)
  show ?thesis
    unfolding ids_match_def
    using assms(1) new Some
    by (auto simp: ids_match_def update_entity_def dest!: set_alist_update_cases)
qed

lemma ids_match_remove: "ids_match s \<Longrightarrow> ids_match (remove_entity s i)"
  unfolding ids_match_def remove_entity_def
  using set_alist_delete_subset [of i "entities s"] by auto

lemma ids_match_run_ops:
  "ids_match s \<Longrightarrow> list_all op_keeps_id ops \<Longrightarrow> ids_match (snd (run_ops s ops))"
proof (induction ops arbitrary: s)
  case Nil
  then show ?case by simp
next
  case (Cons x xs)
  then show ?case
    by (cases x)
       (simp_all add: ids_match_add ids_match_update ids_match_remove case_prod_beta)
qed

section \<open>Sequencing of fallible steps\<close>

lemma bind_err_Inr_iff:
  "bind_err m f = Inr y \<longleftrightarrow> (\<exists>v. m = Inr v \<and> f v = Inr y)"
  by (cases m) (simp_all add: bind_err_def)

lemma bind_err_Inr [simp]: "bind_err (Inr v) f = f v"
  by (simp add: bind_err_def)

lemma bind_err_Inl [simp]: "bind_err (Inl e) f = Inl e"
  by (simp add: bind_err_def)

section \<open>Rounding lemmas\<close>

lemma pow2_powi: "pow2 k = 2 powi k"
proof (cases "0 \<le> k")
  case True
  then show ?thesis by (simp add: pow2_def power_int_def)
next
  case False
  have "inverse (2::rat) ^ nat (- k) = 1 / 2 ^ nat (- k)"
    by (simp add: power_one_over inverse_eq_divide)
  with False show ?thesis by (simp add: pow2_def power_int_def)
qed

lemma pow2_pos [simp]: "0 < pow2 k"
  by (simp add: pow2_powi zero_less_power_int)

lemma pow2_nonneg [simp]: "0 \<le> pow2 k"
  using pow2_pos [of k] by (rule less_imp_le)

lemma pow2_ne0 [simp]: "pow2 k \<noteq> 0"
  by (simp add: pow2_powi)

lemma pow2_nat [simp]: "pow2 (int n) = 2 ^ n"
  by (simp add: pow2_def)

lemma pow2_add: "pow2 (a + b) = pow2 a * pow2 b"
  by (simp add: pow2_powi power_int_add)

lemma pow2_diff: "pow2 (a - b) = pow2 a / pow2 b"
  by (simp add: pow2_powi power_int_diff)

lemma pow2_mono: "a \<le> b \<Longrightarrow> pow2 a \<le> pow2 b"
  by (simp add: pow2_powi power_int_increasing)

lemma pow2_less_imp: "pow2 a < pow2 b \<Longrightarrow> a < b"
  using pow2_mono [of b a] by (cases "a < b") auto

lemma pow2_le_imp: "pow2 a \<le> pow2 b \<Longrightarrow> a \<le> b"
proof (rule ccontr)
  assume le: "pow2 a \<le> pow2 b" and "\<not> a \<le> b"
  then have "b < a" by simp
  then have "pow2 b < pow2 a" by (simp add: pow2_powi power_int_strict_increasing)
  with le show False by simp
qed

lemma pow2_int_multiple:
  "g \<le> k \<Longrightarrow> pow2 k / pow2 g = of_int (2 ^ nat (k - g))"
proof -
  assume "g \<le> k"
  then have "pow2 (k - g) = 2 ^ nat (k - g)" by (simp add: pow2_def)
  then show ?thesis by (simp add: pow2_diff)
qed

text \<open>The exponent is a lower bound.\<close>

lemma ilog2_lower:
  assumes "0 < x"
  shows "pow2 (ilog2 x) \<le> x"
proof (cases "1 \<le> x")
  case True
  then have pos: "0 < \<lfloor>x\<rfloor>" by simp
  have nn: "0 \<le> bitlen \<lfloor>x\<rfloor> - 1"
    using pos bitlen_bounds [of "\<lfloor>x\<rfloor>"] by (simp add: bitlen_alt_def)
  have "(2::int) ^ nat (bitlen \<lfloor>x\<rfloor> - 1) \<le> \<lfloor>x\<rfloor>"
    using bitlen_bounds [OF pos] by simp
  then have "(of_int (2 ^ nat (bitlen \<lfloor>x\<rfloor> - 1)) :: rat) \<le> of_int \<lfloor>x\<rfloor>"
    by (simp only: of_int_le_iff)
  also have "\<dots> \<le> x" by simp
  finally show ?thesis using True nn by (simp add: ilog2_def pow2_def)
next
  case False
  then have lt: "x < 1" by simp
  let ?n = "\<lceil>1 / x\<rceil> - 1"
  have "1 < 1 / x" using assms lt by simp
  then have "1 < \<lceil>1 / x\<rceil>" by (simp add: less_ceiling_iff)
  then have npos: "0 < ?n" by simp
  have "?n < 2 ^ nat (bitlen ?n)" using bitlen_bounds [OF npos] by simp
  then have c: "\<lceil>1 / x\<rceil> \<le> 2 ^ nat (bitlen ?n)" by simp
  have "1 / x \<le> of_int \<lceil>1 / x\<rceil>" by (rule le_of_int_ceiling)
  also have "\<dots> \<le> of_int (2 ^ nat (bitlen ?n))"
    using c by (simp only: of_int_le_iff)
  also have "\<dots> = 2 ^ nat (bitlen ?n)" by simp
  finally have "1 / x \<le> 2 ^ nat (bitlen ?n)" .
  then have "1 \<le> 2 ^ nat (bitlen ?n) * x"
    using assms by (simp add: field_simps)
  then have "1 / 2 ^ nat (bitlen ?n) \<le> x"
    by (simp add: field_simps)
  moreover have "pow2 (- bitlen ?n) = 1 / 2 ^ nat (bitlen ?n)"
    using bitlen_nonneg [of ?n] npos by (auto simp: pow2_def bitlen_eq_zero_iff)
  ultimately show ?thesis using False by (simp add: ilog2_def)
qed

lemma round_half_even_le: "x \<le> of_int n \<Longrightarrow> round_half_even x \<le> n"
proof -
  assume le: "x \<le> of_int n"
  then have fl: "\<lfloor>x\<rfloor> \<le> n" by (simp add: floor_le_iff) 
  show ?thesis
  proof (cases "\<lfloor>x\<rfloor> = n")
    case True
    then have "of_int \<lfloor>x\<rfloor> = x" using le
      by (metis of_int_floor_le order_antisym)
    then show ?thesis using True by (simp add: round_half_even_def Let_def)
  next
    case False
    with fl have "\<lfloor>x\<rfloor> + 1 \<le> n" by simp
    then show ?thesis using fl by (simp add: round_half_even_def Let_def)
  qed
qed

lemma round_half_even_ge: "of_int n \<le> x \<Longrightarrow> n \<le> round_half_even x"
proof -
  assume "of_int n \<le> x"
  then have "n \<le> \<lfloor>x\<rfloor>" by (simp add: le_floor_iff)
  then show ?thesis by (simp add: round_half_even_def Let_def)
qed

lemma round_half_even_of_int [simp]: "round_half_even (of_int n) = n"
  by (simp add: round_half_even_def)


lemma pow2_split: "g \<le> k \<Longrightarrow> pow2 k = of_int (2 ^ nat (k - g)) * pow2 g"
proof -
  assume "g \<le> k"
  then have "pow2 k / pow2 g = of_int (2 ^ nat (k - g))" by (rule pow2_int_multiple)
  then show ?thesis by (simp add: field_simps)
qed

lemma scaled_round_le:
  assumes "0 < q" and "z \<le> of_int N * q"
  shows "of_int (round_half_even (z / q)) * q \<le> of_int N * q"
proof -
  from assms have "z / q \<le> of_int N" by (simp add: pos_divide_le_eq)
  then have "round_half_even (z / q) \<le> N" by (rule round_half_even_le)
  then have "(of_int (round_half_even (z / q)) :: rat) \<le> of_int N"
    by (simp only: of_int_le_iff)
  with assms(1) show ?thesis by (simp only: mult_le_cancel_right_pos)
qed

lemma scaled_round_ge:
  assumes "0 < q" and "of_int N * q \<le> z"
  shows "of_int N * q \<le> of_int (round_half_even (z / q)) * q"
proof -
  from assms have "of_int N \<le> z / q" by (simp add: pos_le_divide_eq)
  then have "N \<le> round_half_even (z / q)" by (rule round_half_even_ge)
  then have "(of_int N :: rat) \<le> of_int (round_half_even (z / q))"
    by (simp only: of_int_le_iff)
  with assms(1) show ?thesis by (simp only: mult_le_cancel_right_pos)
qed

lemma scaled_round_exact:
  assumes "0 < q" and "z = of_int N * q"
  shows "of_int (round_half_even (z / q)) * q = z"
proof -
  from assms have "z / q = of_int N" by simp
  then have "round_half_even (z / q) = N" by (simp only: round_half_even_of_int)
  with assms(2) show ?thesis by simp
qed

lemma round_double_pos_unfold:
  "0 < z \<Longrightarrow>
     round_double z =
       of_int (round_half_even (z / pow2 (max (ilog2 z - 52) (- 1074))))
         * pow2 (max (ilog2 z - 52) (- 1074))"
  by (simp add: round_double_def Let_def)

lemma round_double_nonneg: "0 \<le> z \<Longrightarrow> 0 \<le> round_double z"
proof (cases "z = 0")
  case True
  then show ?thesis by (simp add: round_double_def)
next
  case False
  assume "0 \<le> z"
  with False have pos: "0 < z" by simp
  define q where "q = pow2 (max (ilog2 z - 52) (- 1074))"
  have qpos: "0 < q" by (simp add: q_def)
  have "of_int 0 * q \<le> z" using pos by simp
  from scaled_round_ge [OF qpos this] show ?thesis
    using pos by (simp add: round_double_pos_unfold q_def)
qed

text \<open>Rounding does not cross a power of two.\<close>

lemma round_double_le_pow2:
  assumes "0 \<le> z" and "z \<le> 2 ^ k"
  shows "round_double z \<le> 2 ^ k"
proof (cases "z = 0")
  case True
  then show ?thesis by (simp add: round_double_def)
next
  case False
  with assms have pos: "0 < z" by simp
  define g where "g = max (ilog2 z - 52) (- 1074)"
  define q where "q = pow2 g"
  have qpos: "0 < q" by (simp add: q_def)
  have "pow2 (ilog2 z) \<le> pow2 (int k)" using ilog2_lower [OF pos] assms(2) by simp
  then have "ilog2 z \<le> int k" by (rule pow2_le_imp)
  then have g: "g \<le> int k" by (simp add: g_def)
  define N :: int where "N = 2 ^ nat (int k - g)"
  have split: "pow2 (int k) = of_int N * q"
    unfolding N_def q_def using g by (rule pow2_split)
  then have "z \<le> of_int N * q" using assms(2) by simp
  from scaled_round_le [OF qpos this] have "round_double z \<le> of_int N * q"
    using pos by (simp only: round_double_pos_unfold q_def g_def)
  with split show ?thesis by simp
qed

lemma round_double_ge_pow2:
  assumes "2 ^ k \<le> z"
  shows "2 ^ k \<le> round_double z"
proof -
  have kpos: "(0::rat) < 2 ^ k" by simp
  from kpos assms have pos: "0 < z" by (rule less_le_trans)
  define g where "g = max (ilog2 z - 52) (- 1074)"
  define q where "q = pow2 g"
  have qpos: "0 < q" by (simp add: q_def)
  have rd: "round_double z = of_int (round_half_even (z / q)) * q"
    using pos by (simp only: round_double_pos_unfold q_def g_def)
  show ?thesis
  proof (cases "g \<le> int k")
    case True
    define N :: int where "N = 2 ^ nat (int k - g)"
    have split: "pow2 (int k) = of_int N * q"
      unfolding N_def q_def using True by (rule pow2_split)
    then have "of_int N * q \<le> z" using assms by simp
    from scaled_round_ge [OF qpos this] split rd show ?thesis by simp
  next
    case False
    then have g: "g = ilog2 z - 52" and big: "int k \<le> ilog2 z" by (auto simp: g_def)
    define N :: int where "N = 2 ^ nat (ilog2 z - g)"
    have "g \<le> ilog2 z" using g by simp
    then have split: "pow2 (ilog2 z) = of_int N * q"
      unfolding N_def q_def by (rule pow2_split)
    then have "of_int N * q \<le> z" using ilog2_lower [OF pos] by simp
    from scaled_round_ge [OF qpos this] split rd
    have "pow2 (ilog2 z) \<le> round_double z" by simp
    moreover have "pow2 (int k) \<le> pow2 (ilog2 z)" using big by (rule pow2_mono)
    ultimately show ?thesis by simp
  qed
qed

text \<open>A value with at most 53 significant bits, not below the smallest quantum, is a
  double: rounding leaves it alone.\<close>

lemma round_double_exact:
  assumes "0 \<le> m" and "m < 2 ^ 53" and "- 1074 \<le> j"
  shows "round_double (of_int m * pow2 j) = of_int m * pow2 j"
proof (cases "m = 0")
  case True
  then show ?thesis by (simp add: round_double_def)
next
  case False
  with assms(1) have mpos: "0 < m" by simp
  define z :: rat where "z = of_int m * pow2 j"
  have pos: "0 < z" using mpos by (simp add: z_def)
  define g where "g = max (ilog2 z - 52) (- 1074)"
  define q where "q = pow2 g"
  have qpos: "0 < q" by (simp add: q_def)
  have rd: "round_double z = of_int (round_half_even (z / q)) * q"
    using pos by (simp only: round_double_pos_unfold q_def g_def)
  have p53: "pow2 53 = of_int (2 ^ 53)" by (simp add: pow2_def)
  have "(of_int m :: rat) < of_int (2 ^ 53)" using assms(2) by (simp only: of_int_less_iff)
  then have "z < pow2 53 * pow2 j"
    unfolding z_def p53 by (simp only: mult_less_cancel_right_pos pow2_pos)
  then have "z < pow2 (53 + j)" by (simp only: pow2_add)
  with ilog2_lower [OF pos] have "pow2 (ilog2 z) < pow2 (53 + j)" by simp
  then have "ilog2 z < 53 + j" by (rule pow2_less_imp)
  with assms(3) have g: "g \<le> j" by (simp add: g_def)
  define N :: int where "N = 2 ^ nat (j - g)"
  have "pow2 j = of_int N * q" unfolding N_def q_def using g by (rule pow2_split)
  then have "z = of_int (m * N) * q" by (simp add: z_def)
  from scaled_round_exact [OF qpos this] rd show ?thesis by (simp add: z_def)
qed

lemma round_double_of_int:
  "0 \<le> m \<Longrightarrow> m < 2 ^ 53 \<Longrightarrow> round_double (of_int m) = of_int m"
  using round_double_exact [of m 0] by (simp add: pow2_def)

lemma round_double_half:
  "0 \<le> m \<Longrightarrow> m < 2 ^ 53 \<Longrightarrow> round_double (of_int m / 2) = of_int m / 2"
  using round_double_exact [of m "- 1"] by (simp add: pow2_def)

section \<open>Evaluating the float operations on numerals\<close>

lemma floor_numeral_div:
  "\<lfloor>numeral a / numeral b :: rat\<rfloor> = numeral a div numeral b"
  using floor_divide_of_int_eq [of "numeral a" "numeral b", where ?'a = rat] by simp

lemma ceiling_numeral_div:
  "\<lceil>numeral a / numeral b :: rat\<rceil> = - (- numeral a div numeral b)"
  using floor_divide_of_int_eq [of "- numeral a" "numeral b", where ?'a = rat]
  by (simp add: ceiling_def)

lemma floor_one_div: "\<lfloor>1 / numeral b :: rat\<rfloor> = 1 div numeral b"
  using floor_divide_of_int_eq [of 1 "numeral b", where ?'a = rat] by simp

lemma ceiling_one_div: "\<lceil>1 / numeral b :: rat\<rceil> = - (- 1 div numeral b)"
  using floor_divide_of_int_eq [of "- 1" "numeral b", where ?'a = rat]
  by (simp add: ceiling_def)

lemma bitlen_numeral: "bitlen (numeral n) = bitlen (numeral n div 2) + 1"
  by (subst compute_bitlen) simp

lemma bitlen_one: "bitlen 1 = 1"
  by (subst compute_bitlen) simp

lemmas eval_defs = round_double_def ilog2_def pow2_def round_half_even_def Let_def
  bitlen_numeral bitlen_one floor_numeral_div ceiling_numeral_div floor_one_div ceiling_one_div
  double_of_rat_def float_of_int_def
  int_truediv_def bind_err_def cell_center_def grid_to_screen_center_def
  screen_to_grid_def py_floordiv_int_def fmod_def trunc_def

section \<open>Exact float operations on small integers and halves\<close>

lemma small_int_bounds:
  assumes "0 \<le> m" and "m < 2 ^ 53"
  shows "(of_int m :: rat) < 2 ^ 1024" and "(of_int m / 2 :: rat) < 2 ^ 1024"
    and "(0::rat) \<le> of_int m"
proof -
  have "(of_int m :: rat) < of_int (2 ^ 53)" using assms(2) by (simp only: of_int_less_iff)
  then have a: "(of_int m :: rat) < 2 ^ 53" by simp
  have b: "(2::rat) ^ 53 \<le> 2 ^ 1024" by (rule power_increasing) simp_all
  from a b show "(of_int m :: rat) < 2 ^ 1024" by (rule less_le_trans)
  show c: "(0::rat) \<le> of_int m" using assms(1) by simp
  have "(of_int m / 2 :: rat) \<le> of_int m" using c by simp
  with a b show "(of_int m / 2 :: rat) < 2 ^ 1024" by linarith
qed

lemma float_of_int_exact:
  assumes "0 \<le> m" and "m < 2 ^ 53"
  shows "float_of_int m = Inr (of_int m)"
  using small_int_bounds [OF assms] round_double_of_int [OF assms]
  by (simp add: float_of_int_def Let_def)

lemma int_truediv_half:
  assumes "0 \<le> m" and "m < 2 ^ 53"
  shows "int_truediv m 2 = Inr (Fin (of_int m / 2))"
  using small_int_bounds [OF assms] round_double_half [OF assms]
  by (simp add: int_truediv_def Let_def)

lemma double_of_rat_half:
  assumes "0 \<le> m" and "m < 2 ^ 53"
  shows "double_of_rat (of_int m / 2) = Fin (of_int m / 2)"
  using small_int_bounds [OF assms] round_double_half [OF assms]
  by (simp add: double_of_rat_def Let_def)

lemma center_bounds:
  fixes n c :: int
  assumes "0 \<le> n" and "0 < c" and "(2 * n + 1) * c < 2 ^ 53"
  shows "c < 2 ^ 53" and "n * c < 2 ^ 53" and "0 \<le> n * c" and "n < 2 ^ 53"
    and "0 \<le> (2 * n + 1) * c"
proof -
  from assms(2) have c0: "0 \<le> c" by simp
  from assms(1) c0 have nc: "0 \<le> n * c" by (rule mult_nonneg_nonneg)
  have e: "(2 * n + 1) * c = 2 * (n * c) + c" by (simp add: algebra_simps)
  show "c < 2 ^ 53" using assms(3) nc unfolding e by linarith
  show "n * c < 2 ^ 53" using assms(2,3) nc unfolding e by linarith
  show "0 \<le> n * c" by (rule nc)
  have "n * 1 \<le> n * c" using assms(1,2) by (intro mult_left_mono) simp_all
  then show "n < 2 ^ 53" using assms(2,3) nc unfolding e by linarith
  show "0 \<le> (2 * n + 1) * c" using nc assms(2) unfolding e by linarith
qed

lemma cell_center_exact:
  assumes "0 \<le> n" and "0 < c" and "(2 * n + 1) * c < 2 ^ 53"
  shows "cell_center c n = Inr (Fin (of_int ((2 * n + 1) * c) / 2))"
proof -
  note b = center_bounds [OF assms]
  have c0: "0 \<le> c" using assms(2) by simp
  have half: "int_truediv c 2 = Inr (Fin (of_int c / 2))"
    using c0 b(1) by (rule int_truediv_half)
  have prod: "float_of_int (n * c) = Inr (of_int (n * c))"
    using b(3) b(2) by (rule float_of_int_exact)
  have sum: "(of_int (n * c) :: rat) + of_int c / 2 = of_int ((2 * n + 1) * c) / 2"
    by (simp add: algebra_simps)
  show ?thesis
    unfolding cell_center_def half prod
    by (simp only: bind_err_Inr float_add.simps sum double_of_rat_half [OF b(5) assms(3)])
qed

lemma round_double_zero [simp]: "round_double 0 = 0"
  by (simp add: round_double_def)

lemma float_floor_div_exact:
  assumes "fmod vx wx = m"
    and "round_double (round_double (vx - m) / wx) = of_int n"
    and "0 \<le> n" and "(of_int n :: rat) < 2 ^ 1024"
    and "(wx < 0) = (m < 0)"
  shows "float_floor_div (Fin vx) wx = Fin (of_int n)"
proof -
  have nn: "(0::rat) \<le> of_int n" using assms(3) by simp
  have lo: "\<not> (of_int n :: rat) \<le> - (2 ^ 1024)"
  proof
    assume "(of_int n :: rat) \<le> - (2 ^ 1024)"
    with nn have "(0::rat) \<le> - (2 ^ 1024)" by (rule order_trans)
    then show False by simp
  qed
  have hi: "\<not> (2::rat) ^ 1024 \<le> of_int n" using assms(4) by (simp only: not_le)
  show ?thesis
    unfolding float_floor_div.simps Let_def assms(1) assms(2)
    using lo hi assms(5) by (simp del: of_int_less_iff of_int_le_iff)
qed

lemma floordiv_center_exact:
  assumes "0 \<le> n" and "0 < c" and "(2 * n + 1) * c < 2 ^ 53"
  shows "py_floordiv_int (PFloat (Fin (of_int ((2 * n + 1) * c) / 2))) c
           = Inr (NFloat (Fin (of_int n)))"
proof -
  note b = center_bounds [OF assms]
  define vx :: rat where "vx = of_int ((2 * n + 1) * c) / 2"
  define wx :: rat where "wx = of_int c"
  have c0: "0 \<le> c" using assms(2) by simp
  have wpos: "0 < wx" using assms(2) by (simp add: wx_def)
  have conv: "float_of_int c = Inr wx"
    unfolding wx_def using c0 b(1) by (rule float_of_int_exact)
  have quot: "vx / wx = of_int n + 1 / 2"
    using assms(2) by (simp add: vx_def wx_def field_simps)
  have "\<lfloor>of_int n + 1 / 2 :: rat\<rfloor> = n" by (simp add: floor_unique)
  moreover have "(0::rat) \<le> of_int n + 1 / 2" using assms(1) by simp
  ultimately have tr: "trunc (vx / wx) = n" by (simp add: trunc_def quot)
  have m: "fmod vx wx = of_int c / 2"
    unfolding fmod_def tr by (simp add: vx_def wx_def algebra_simps)
  have diff: "vx - of_int c / 2 = of_int (n * c)"
    by (simp add: vx_def algebra_simps)
  have r1: "round_double (vx - of_int c / 2) = of_int (n * c)"
    unfolding diff using b(3) b(2) by (rule round_double_of_int)
  have "(of_int (n * c) :: rat) / wx = of_int n"
    using assms(2) by (simp add: wx_def)
  then have d0: "round_double (round_double (vx - of_int c / 2) / wx) = of_int n"
    unfolding r1 using round_double_of_int [OF assms(1) b(4)] by simp
  have mpos: "(0::rat) < of_int c / 2" using assms(2) by simp
  have nb: "(of_int n :: rat) < 2 ^ 1024"
    using small_int_bounds(1) [OF assms(1) b(4)] .
  have signs: "(wx < 0) = (of_int c / 2 < (0::rat))" using mpos wpos by simp
  have ffd: "float_floor_div (Fin vx) wx = Fin (of_int n)"
    using m d0 assms(1) nb signs by (rule float_floor_div_exact)
  show ?thesis
    unfolding vx_def [symmetric]
    using wpos by (simp add: py_floordiv_int_def conv ffd del: float_floor_div.simps)
qed

lemma center_round_trip:
  assumes "0 \<le> n" and "0 < c" and "(2 * n + 1) * c < 2 ^ 53"
  shows "\<exists>cx. cell_center c n = Inr cx
           \<and> bind_err (py_floordiv_int (PFloat cx) c) py_int = Inr n"
  using cell_center_exact [OF assms] floordiv_center_exact [OF assms]
  by (simp add: trunc_def)

section \<open>Float operations on bounded values\<close>

lemma pow_le_1024: "k \<le> 1000 \<Longrightarrow> (2::rat) ^ k < 2 ^ 1024"
  by (rule power_strict_increasing) simp_all

lemma double_of_rat_bounded:
  assumes "0 \<le> z" and "z \<le> 2 ^ k" and "k \<le> 1000"
  shows "\<exists>r. double_of_rat z = Fin r \<and> 0 \<le> r \<and> r \<le> 2 ^ k"
proof -
  have nn: "0 \<le> round_double z" using assms(1) by (rule round_double_nonneg)
  have le: "round_double z \<le> 2 ^ k" using assms(1,2) by (rule round_double_le_pow2)
  from le pow_le_1024 [OF assms(3)] have lt: "round_double z < 2 ^ 1024" by (rule le_less_trans)
  have lo: "\<not> round_double z \<le> - (2 ^ 1024)"
  proof
    assume "round_double z \<le> - (2 ^ 1024)"
    with nn have "(0::rat) \<le> - (2 ^ 1024)" by (rule order_trans)
    then show False by simp
  qed
  from lt have hi: "\<not> 2 ^ 1024 \<le> round_double z" by (simp only: not_le)
  have "double_of_rat z = Fin (round_double z)"
    unfolding double_of_rat_def Let_def using lo hi by (simp only: if_False)
  with nn le show ?thesis by blast
qed

lemma float_of_int_bounded:
  assumes "0 \<le> m" and "of_int m \<le> (2::rat) ^ k" and "k \<le> 1000"
  shows "\<exists>w. float_of_int m = Inr w \<and> 0 \<le> w \<and> w \<le> 2 ^ k"
proof -
  have z: "(0::rat) \<le> of_int m" using assms(1) by simp
  have nn: "0 \<le> round_double (of_int m)" using z by (rule round_double_nonneg)
  have le: "round_double (of_int m) \<le> 2 ^ k" using z assms(2) by (rule round_double_le_pow2)
  from le pow_le_1024 [OF assms(3)] have lt: "round_double (of_int m) < 2 ^ 1024"
    by (rule le_less_trans)
  from nn have ab: "\<bar>round_double (of_int m)\<bar> = round_double (of_int m)" by simp
  from lt have hi: "\<not> 2 ^ 1024 \<le> \<bar>round_double (of_int m)\<bar>"
    unfolding ab by (simp only: not_le)
  have "float_of_int m = Inr (round_double (of_int m))"
    unfolding float_of_int_def Let_def using hi by (simp only: if_False)
  with nn le show ?thesis by blast
qed

lemma float_of_int_ge_1:
  assumes "0 < c" and "float_of_int c = Inr w"
  shows "1 \<le> w"
proof -
  have "(2::rat) ^ 0 \<le> of_int c" using assms(1) by simp
  then have "(2::rat) ^ 0 \<le> round_double (of_int c)" by (rule round_double_ge_pow2)
  moreover from assms(2) have "w = round_double (of_int c)"
    by (simp add: float_of_int_def Let_def split: if_splits)
  ultimately show ?thesis by simp
qed

lemma fmod_bounds:
  assumes "0 \<le> vx" and "0 < wx"
  shows "0 \<le> fmod vx wx" and "fmod vx wx \<le> vx"
proof -
  have q: "0 \<le> vx / wx" using assms by simp
  then have tr: "trunc (vx / wx) = \<lfloor>vx / wx\<rfloor>" by (simp add: trunc_def)
  have "of_int \<lfloor>vx / wx\<rfloor> \<le> vx / wx" by (rule of_int_floor_le)
  then have "wx * of_int \<lfloor>vx / wx\<rfloor> \<le> wx * (vx / wx)"
    using assms(2) by (simp only: mult_le_cancel_left_pos)
  also have "\<dots> = vx" using assms(2) by simp
  finally show "0 \<le> fmod vx wx" by (simp add: fmod_def tr)
  have "0 \<le> \<lfloor>vx / wx\<rfloor>" using q by simp
  then have "(0::rat) \<le> of_int \<lfloor>vx / wx\<rfloor>" by simp
  then have "0 \<le> wx * of_int \<lfloor>vx / wx\<rfloor>" using assms(2) by simp
  then show "fmod vx wx \<le> vx" by (simp add: fmod_def tr)
qed

lemma float_floor_div_is_finite:
  assumes "0 \<le> vx" and "vx \<le> 2 ^ 1000" and "1 \<le> wx"
  shows "\<exists>r. float_floor_div (Fin vx) wx = Fin r"
proof -
  have wpos: "0 < wx" using assms(3) by simp
  define m where "m = fmod vx wx"
  have m0: "0 \<le> m" and mv: "m \<le> vx"
    unfolding m_def using fmod_bounds [OF assms(1) wpos] by simp_all
  define a where "a = round_double (vx - m)"
  have dn: "0 \<le> vx - m" using mv by simp
  have "vx - m \<le> vx" using m0 by simp
  then have dl: "vx - m \<le> 2 ^ 1000" using assms(2) by (rule order_trans)
  have a0: "0 \<le> a" unfolding a_def using dn by (rule round_double_nonneg)
  have a1: "a \<le> 2 ^ 1000" unfolding a_def using dn dl by (rule round_double_le_pow2)
  have q0: "0 \<le> a / wx" using a0 wpos by simp
  have "a * 1 \<le> a * wx" using a0 assms(3) by (rule mult_left_mono [OF _ _, rotated])
  then have "a / wx \<le> a" using wpos by (simp add: pos_divide_le_eq)
  then have q1: "a / wx \<le> 2 ^ 1000" using a1 by (rule order_trans)
  define d0 where "d0 = round_double (a / wx)"
  have d0n: "0 \<le> d0" unfolding d0_def using q0 by (rule round_double_nonneg)
  have d0l: "d0 \<le> 2 ^ 1000" unfolding d0_def using q0 q1 by (rule round_double_le_pow2)
  have lt: "d0 < 2 ^ 1024" using d0l pow_le_1024 [of 1000, OF order_refl] by (rule le_less_trans)
  have lo: "\<not> d0 \<le> - (2 ^ 1024)"
  proof
    assume "d0 \<le> - (2 ^ 1024)"
    with d0n have "(0::rat) \<le> - (2 ^ 1024)" by (rule order_trans)
    then show False by simp
  qed
  from lt have hi: "\<not> 2 ^ 1024 \<le> d0" by (simp only: not_le)
  have "float_floor_div (Fin vx) wx =
      (let d = (if m \<noteq> 0 \<and> ((wx < 0) \<noteq> (m < 0)) then round_double (d0 - 1) else d0)
       in if d \<noteq> 0
          then let fd = of_int \<lfloor>d\<rfloor>
               in Fin (if 1 / 2 < round_double (d - fd) then round_double (fd + 1) else fd)
          else Fin 0)"
    unfolding float_floor_div.simps Let_def m_def [symmetric] a_def [symmetric] d0_def [symmetric]
    using lo hi by (simp only: if_False)
  then show ?thesis by (simp add: Let_def)
qed

section \<open>Renderer lemmas\<close>

lemma move_entities_frame:
  "move_entities cfg items s = Inr s' \<Longrightarrow>
     map fst (entities s') = map fst (entities s) \<and> next_entity_id s' = next_entity_id s"
proof (induction items arbitrary: s)
  case Nil
  then show ?case by simp
next
  case (Cons p items)
  obtain i d where p: "p = (i, d)" by (cases p)
  from Cons.prems obtain u where "move_entities cfg items (update_entity s i u) = Inr s'"
    by (auto simp: p bind_err_Inr_iff)
  from Cons.IH [OF this] show ?case by simp
qed

lemma prepare_metrics_fields [simp]:
  "monitor (prepare_metrics fps r) = monitor r"
  "state (prepare_metrics fps r) = state r"
  "selected_entity_id (prepare_metrics fps r) = selected_entity_id r"
  "is_running (prepare_metrics fps r) = is_running r"
  "frame_count (prepare_metrics fps r) = frame_count r"
  by (simp_all add: prepare_metrics_def update_global_metrics_def)

lemma prepare_metrics_global_metrics:
  "global_metrics (prepare_metrics fps r) =
     AList.update ''Total Entities'' (PInt (int (length (entities (state r)))))
       (AList.update ''Current FPS'' (PFloat fps)
         (AList.update ''Frame Count'' (PInt (frame_count r)) (global_metrics r)))"
  by (simp add: prepare_metrics_def update_global_metrics_def)

lemma send_entity_list_fields [simp]:
  "state (send_entity_list r) = state r"
  "selected_entity_id (send_entity_list r) = selected_entity_id r"
  "is_running (send_entity_list r) = is_running r"
  "frame_count (send_entity_list r) = frame_count r"
  "global_metrics (send_entity_list r) = global_metrics r"
  by (simp_all add: send_entity_list_def split: option.splits)

lemma send_data_fields [simp]:
  "state (send_data r) = state r"
  "selected_entity_id (send_data r) = selected_entity_id r"
  "is_running (send_data r) = is_running r"
  "frame_count (send_data r) = frame_count r"
  "global_metrics (send_data r) = global_metrics r"
  by (simp_all add: send_data_def split: option.splits)

lemma data_to_send_send_entity_list [simp]:
  "data_to_send (send_entity_list r) = data_to_send r"
  by (simp add: data_to_send_def split: option.splits)

lemma monitor_send_entity_list:
  "monitor (send_entity_list r) =
     map_option (\<lambda>m. if frame_count r mod 60 = 0
                      then update_entity_list m (get_entity_ids (state r)) else m) (monitor r)"
  by (simp add: send_entity_list_def split: option.splits)

lemma monitor_send_data:
  "monitor (send_data r) =
     map_option (\<lambda>m. if frame_count r mod 15 = 0
                      then update_data m (data_to_send r) else m) (monitor r)"
  by (simp add: send_data_def split: option.splits)

text \<open>What a call of \<open>update\<close> that returns has done.\<close>

lemma update_Inr:
  assumes "update cfg fps r = Inr r'"
  shows "move_entities cfg (entities (state r)) (state r) = Inr (state r')"
    and "frame_count r' = frame_count r + 1"
    and "selected_entity_id r' = selected_entity_id r"
    and "is_running r' = is_running r"
    and "global_metrics r' =
           AList.update ''Total Entities'' (PInt (int (length (entities (state r')))))
             (AList.update ''Current FPS'' (PFloat fps)
               (AList.update ''Frame Count'' (PInt (frame_count r + 1)) (global_metrics r)))"
    and "monitor r' =
           map_option (\<lambda>m.
             let m1 = (if (frame_count r + 1) mod 60 = 0
                       then update_entity_list m (get_entity_ids (state r')) else m)
             in if (frame_count r + 1) mod 15 = 0
                then update_data m1 (case selected_entity_id r of
                                       None \<Rightarrow> global_metrics r'
                                     | Some i \<Rightarrow> get_entity_data (state r') i)
                else m1) (monitor r)"
proof -
  from assms obtain s' where mv: "move_entities cfg (entities (state r)) (state r) = Inr s'"
    and r': "r' = send_data (send_entity_list (prepare_metrics fps
                    (r\<lparr>frame_count := frame_count r + 1, state := s'\<rparr>)))"
    unfolding update_def by (auto simp: bind_err_Inr_iff)
  have st: "state r' = s'" unfolding r' by simp
  show "move_entities cfg (entities (state r)) (state r) = Inr (state r')"
    using mv st by simp
  show "frame_count r' = frame_count r + 1" unfolding r' by simp
  show "selected_entity_id r' = selected_entity_id r" unfolding r' by simp
  show "is_running r' = is_running r" unfolding r' by simp
  show gm: "global_metrics r' =
           AList.update ''Total Entities'' (PInt (int (length (entities (state r')))))
             (AList.update ''Current FPS'' (PFloat fps)
               (AList.update ''Frame Count'' (PInt (frame_count r + 1)) (global_metrics r)))"
    unfolding st unfolding r' by (simp add: prepare_metrics_global_metrics)
  have dts: "data_to_send (prepare_metrics fps (r\<lparr>frame_count := frame_count r + 1, state := s'\<rparr>))
      = (case selected_entity_id r of
           None \<Rightarrow> global_metrics r'
         | Some i \<Rightarrow> get_entity_data (state r') i)"
    unfolding gm st
    by (simp add: data_to_send_def prepare_metrics_global_metrics split: option.splits)
  have mon: "monitor r' =
           map_option (\<lambda>m.
             let m1 = (if (frame_count r + 1) mod 60 = 0
                       then update_entity_list m (get_entity_ids s') else m)
             in if (frame_count r + 1) mod 15 = 0
                then update_data m1 (data_to_send (prepare_metrics fps
                       (r\<lparr>frame_count := frame_count r + 1, state := s'\<rparr>)))
                else m1) (monitor r)"
    unfolding r'
    by (cases "monitor r")
       (simp_all add: monitor_send_data monitor_send_entity_list Let_def)
  show "monitor r' =
           map_option (\<lambda>m.
             let m1 = (if (frame_count r + 1) mod 60 = 0
                       then update_entity_list m (get_entity_ids (state r')) else m)
             in if (frame_count r + 1) mod 15 = 0
                then update_data m1 (case selected_entity_id r of
                                       None \<Rightarrow> global_metrics r'
                                     | Some i \<Rightarrow> get_entity_data (state r') i)
                else m1) (monitor r)"
    using mon unfolding dts st by simp
qed

lemma scheduled_data_update_entity_list [simp]:
  "scheduled_data (update_entity_list m ids) = scheduled_data m"
  by (simp add: update_entity_list_def)

lemma scheduled_data_update_data:
  "scheduled_data (update_data m d) = scheduled_data m
   \<or> scheduled_data (update_data m d) = scheduled_data m @ [d]"
  by (simp add: update_data_def)

text \<open>A frame publishes at most one snapshot, and then the one \<open>update\<close> chose.\<close>

lemma update_snapshots:
  assumes "update cfg fps r = Inr r'" and "snapshots r' \<noteq> snapshots r"
  shows "snapshots r' = snapshots r @ [case selected_entity_id r of
                                         None \<Rightarrow> global_metrics r'
                                       | Some i \<Rightarrow> get_entity_data (state r') i]"
proof (cases "monitor r")
  case None
  with update_Inr(6) [OF assms(1)] assms(2) show ?thesis by (simp add: snapshots_def)
next
  case (Some m)
  show ?thesis
  proof (cases "(frame_count r + 1) mod 15 = 0")
    case False
    with update_Inr(6) [OF assms(1)] assms(2) Some show ?thesis
      by (simp add: snapshots_def Let_def split: if_splits)
  next
    case True
    with update_Inr(6) [OF assms(1)] assms(2) Some show ?thesis
      by (auto simp: snapshots_def Let_def update_data_def update_entity_list_def
          split: if_splits)
  qed
qed

lemma metrics_shape_init: "metrics_shape (PygameRenderer_init mon gs)"
  by (simp add: metrics_shape_def PygameRenderer_init_def)

lemma metrics_after_update:
  assumes "update cfg fps r = Inr r'" and "metrics_shape r"
  shows "global_metrics r' =
           [(''Frame Count'', PInt (frame_count r')), (''Current FPS'', PFloat fps),
            (''Total Entities'', PInt (int (length (entities (state r'))))),
            (''System Status'', PStr ''Running'')]"
  using assms(2) update_Inr(2,5) [OF assms(1)]
  by (auto simp: metrics_shape_def)

lemma metrics_shape_step:
  assumes "step cfg r e = Inr r'" and "metrics_shape r"
  shows "metrics_shape r'"
proof (cases e)
  case (Frame fps)
  with assms(1) have "update cfg fps r = Inr r'" by simp
  from metrics_after_update [OF this assms(2)] show ?thesis
    by (simp add: metrics_shape_def)
next
  case (Select i)
  with assms show ?thesis by (auto simp: metrics_shape_def set_selected_entity_def)
qed

lemma metrics_shape_run_events:
  "run_events cfg r evs = Inr r' \<Longrightarrow> metrics_shape r \<Longrightarrow> metrics_shape r'"
proof (induction evs arbitrary: r)
  case Nil
  then show ?case by simp
next
  case (Cons e evs)
  from Cons.prems(1) obtain r1 where s: "step cfg r e = Inr r1"
    and rest: "run_events cfg r1 evs = Inr r'"
    by (auto simp: bind_err_Inr_iff)
  from Cons.IH [OF rest metrics_shape_step [OF s Cons.prems(2)]] show ?case .
qed

section \<open>The movement loop on good coordinates\<close>

lemma good_config_cell:
  assumes "good_config cfg"
  shows "\<exists>w. float_of_int (CELL_SIZE cfg) = Inr w \<and> 1 \<le> w"
proof -
  from assms have pos: "0 < CELL_SIZE cfg" and le: "CELL_SIZE cfg \<le> 2 ^ 990"
    by (simp_all add: good_config_def)
  from le have "(of_int (CELL_SIZE cfg) :: rat) \<le> of_int (2 ^ 990)"
    by (simp only: of_int_le_iff)
  then have le': "(of_int (CELL_SIZE cfg) :: rat) \<le> 2 ^ 990" by simp
  from pos have nn: "0 \<le> CELL_SIZE cfg" by simp
  from float_of_int_bounded [OF nn le'] obtain w
    where w: "float_of_int (CELL_SIZE cfg) = Inr w" by auto
  from float_of_int_ge_1 [OF pos w] w show ?thesis by blast
qed

lemma axis_ok:
  assumes "good_coord v" and "good_config cfg"
  shows "\<exists>n. bind_err (py_floordiv_int v (CELL_SIZE cfg)) py_int = Inr n"
proof -
  from assms(1) obtain r where v: "v = PFloat (Fin r)" and r0: "0 \<le> r" and r1: "r \<le> 2 ^ 1000"
    by (auto simp: good_coord_def)
  from good_config_cell [OF assms(2)] obtain w
    where w: "float_of_int (CELL_SIZE cfg) = Inr w" and w1: "1 \<le> w" by blast
  from float_floor_div_is_finite [OF r0 r1 w1] obtain q
    where q: "float_floor_div (Fin r) w = Fin q" by blast
  from w1 have "w \<noteq> 0" by auto
  then have "py_floordiv_int v (CELL_SIZE cfg) = Inr (NFloat (Fin q))"
    by (simp add: py_floordiv_int_def v w q del: float_floor_div.simps)
  then show ?thesis by simp
qed

lemma screen_to_grid_ok:
  assumes "good_coord x" and "good_coord y" and "good_config cfg"
  shows "\<exists>col row. screen_to_grid (CELL_SIZE cfg) x y = Inr (col, row)"
proof -
  from axis_ok [OF assms(1,3)] obtain col
    where "bind_err (py_floordiv_int x (CELL_SIZE cfg)) py_int = Inr col" ..
  then obtain qx where qx: "py_floordiv_int x (CELL_SIZE cfg) = Inr qx" and ix: "py_int qx = Inr col"
    by (auto simp: bind_err_Inr_iff)
  from axis_ok [OF assms(2,3)] obtain row
    where "bind_err (py_floordiv_int y (CELL_SIZE cfg)) py_int = Inr row" ..
  then obtain qy where qy: "py_floordiv_int y (CELL_SIZE cfg) = Inr qy" and iy: "py_int qy = Inr row"
    by (auto simp: bind_err_Inr_iff)
  show ?thesis by (simp add: screen_to_grid_def qx ix qy iy)
qed

lemma float_of_int_zero: "float_of_int 0 = Inr 0"
  by (simp add: float_of_int_def)

lemma good_coord_double:
  assumes "0 \<le> z" and "z \<le> 2 ^ 1000"
  shows "\<exists>nx. double_of_rat z = nx \<and> good_coord (PFloat nx)"
  using double_of_rat_bounded [OF assms order_refl] by (auto simp: good_coord_def)

lemma new_x_ok:
  assumes "good_coord x" and "good_config cfg"
  shows "\<exists>nx. bind_err (py_lt_int x (GAME_SCREEN_WIDTH cfg - CELL_SIZE cfg))
                 (\<lambda>b. if b then py_add_float x move_speed
                      else py_add_float (PInt 0) move_speed) = Inr nx
              \<and> good_coord (PFloat nx)"
proof -
  from assms(1) obtain r where x: "x = PFloat (Fin r)" and r0: "0 \<le> r" and r1: "r \<le> 2 ^ 1000"
    by (auto simp: good_coord_def)
  let ?k = "GAME_SCREEN_WIDTH cfg - CELL_SIZE cfg"
  have lt: "py_lt_int x ?k = Inr (r < of_int ?k)" by (simp add: py_lt_int_def x)
  show ?thesis
  proof (cases "r < of_int ?k")
    case True
    from assms(2) have "?k \<le> 2 ^ 990" by (simp add: good_config_def)
    then have "(of_int ?k :: rat) \<le> of_int (2 ^ 990)" by (simp only: of_int_le_iff)
    then have "(of_int ?k :: rat) \<le> 2 ^ 990" by simp
    with True have "r < 2 ^ 990" by (rule less_le_trans)
    moreover have "(2::rat) ^ 990 + 3 / 2 \<le> 2 ^ 1000" by simp
    ultimately have up: "r + 3 / 2 \<le> 2 ^ 1000" by linarith
    have lo: "0 \<le> r + 3 / 2" using r0 by simp
    from good_coord_double [OF lo up] obtain nx
      where nx: "double_of_rat (r + 3 / 2) = nx" and g: "good_coord (PFloat nx)" by blast
    have "py_add_float x move_speed = Inr nx"
      by (simp add: py_add_float_def x move_speed_def nx)
    with True lt g show ?thesis by simp
  next
    case False
    have "(0::rat) \<le> 0 + 3 / 2" "(0::rat) + 3 / 2 \<le> 2 ^ 1000" by simp_all
    from good_coord_double [OF this] obtain nx
      where nx: "double_of_rat (0 + 3 / 2) = nx" and g: "good_coord (PFloat nx)" by blast
    have "py_add_float (PInt 0) move_speed = Inr nx"
      using nx by (simp add: py_add_float_def move_speed_def float_of_int_zero)
    with False lt g show ?thesis by simp
  qed
qed

lemma entity_updates_ok:
  assumes "movable d" and "good_config cfg"
  shows "\<exists>nx y col row.
           entity_updates cfg d = Inr [(''x'', PFloat nx), (''y'', y),
                                       (''grid_col'', PInt col), (''grid_row'', PInt row)]
           \<and> good_coord (PFloat nx) \<and> good_coord y"
proof -
  from assms(1) obtain x y where x: "map_of d ''x'' = Some x" and y: "map_of d ''y'' = Some y"
    and gx: "good_coord x" and gy: "good_coord y"
    by (auto simp: movable_def)
  from new_x_ok [OF gx assms(2)] obtain nx
    where nx: "bind_err (py_lt_int x (GAME_SCREEN_WIDTH cfg - CELL_SIZE cfg))
                 (\<lambda>b. if b then py_add_float x move_speed
                      else py_add_float (PInt 0) move_speed) = Inr nx"
      and gn: "good_coord (PFloat nx)" by blast
  from nx obtain b where b: "py_lt_int x (GAME_SCREEN_WIDTH cfg - CELL_SIZE cfg) = Inr b"
    and ad: "(if b then py_add_float x move_speed else py_add_float (PInt 0) move_speed) = Inr nx"
    by (auto simp: bind_err_Inr_iff)
  from screen_to_grid_ok [OF gn gy assms(2)] obtain col row
    where sg: "screen_to_grid (CELL_SIZE cfg) (PFloat nx) y = Inr (col, row)" by blast
  have "entity_updates cfg d = Inr [(''x'', PFloat nx), (''y'', y),
                                   (''grid_col'', PInt col), (''grid_row'', PInt row)]"
    unfolding entity_updates_def
    by (simp add: dict_item_def x y b ad sg)
  with gn gy show ?thesis by blast
qed

lemma movable_dict_update:
  assumes "good_coord x'" and "good_coord y'"
  shows "movable (dict_update d [(''x'', x'), (''y'', y'), (''grid_col'', a), (''grid_row'', b)])"
proof -
  have dist: "distinct (map fst [(''x'', x'), (''y'', y'), (''grid_col'', a), (''grid_row'', b)])"
    by simp
  show ?thesis
    unfolding movable_def
    using assms by (simp add: map_of_dict_update_distinct [OF dist])
qed

lemma all_movable_update_entity:
  assumes "all_movable s" and "\<And>d. movable (dict_update d u)"
  shows "all_movable (update_entity s i u)"
proof (cases "map_of (entities s) i")
  case None
  with assms(1) show ?thesis by (simp add: update_entity_def)
next
  case (Some d)
  show ?thesis
    unfolding all_movable_def
  proof
    fix p assume "p \<in> set (entities (update_entity s i u))"
    then have "p \<in> set (AList.update i (dict_update d u) (entities s))"
      using Some by (simp add: update_entity_def)
    then have "p = (i, dict_update d u) \<or> p \<in> set (entities s)"
      by (rule set_alist_update_cases)
    then show "movable (snd p)"
      using assms by (auto simp: all_movable_def)
  qed
qed

lemma move_entities_ok:
  assumes "good_config cfg"
  shows "\<forall>p \<in> set items. movable (snd p) \<Longrightarrow> all_movable s \<Longrightarrow>
           \<exists>s'. move_entities cfg items s = Inr s' \<and> all_movable s'"
proof (induction items arbitrary: s)
  case Nil
  then show ?case by simp
next
  case (Cons p items)
  obtain i d where p: "p = (i, d)" by (cases p)
  from Cons.prems(1) have md: "movable d" and rest: "\<forall>p \<in> set items. movable (snd p)"
    by (simp_all add: p)
  from entity_updates_ok [OF md assms] obtain nx y col row
    where u: "entity_updates cfg d = Inr [(''x'', PFloat nx), (''y'', y),
                                          (''grid_col'', PInt col), (''grid_row'', PInt row)]"
      and gn: "good_coord (PFloat nx)" and gy: "good_coord y" by blast
  let ?u = "[(''x'', PFloat nx), (''y'', y), (''grid_col'', PInt col), (''grid_row'', PInt row)]"
  have "all_movable (update_entity s i ?u)"
    using Cons.prems(2) movable_dict_update [OF gn gy] by (rule all_movable_update_entity)
  from Cons.IH [OF rest this] obtain s'
    where "move_entities cfg items (update_entity s i ?u) = Inr s'" and "all_movable s'" by blast
  then show ?case by (simp add: p u)
qed

lemma update_ok:
  assumes "good_config cfg" and "all_movable (state r)"
  shows "\<exists>r'. update cfg fps r = Inr r' \<and> all_movable (state r')"
proof -
  from assms(2) have "\<forall>p \<in> set (entities (state r)). movable (snd p)"
    by (simp add: all_movable_def)
  from move_entities_ok [OF assms(1) this assms(2)] obtain s'
    where mv: "move_entities cfg (entities (state r)) (state r) = Inr s'"
      and am: "all_movable s'" by blast
  show ?thesis
    unfolding update_def by (simp add: mv am)
qed

section \<open>Claims about the entity store\<close>

text \<open>
  C2. For every sequence of create calls, interleaved with updates and removals in any
  way, the identities returned form a strictly increasing sequence and none is returned
  twice; the identity counter after any prefix of the sequence is at most the counter
  after the whole sequence; and the live identities of the store are pairwise distinct.
\<close>

theorem create_ids_strictly_increasing:
  "sorted_wrt (<) (fst (run_ops game_state (pre @ post)))
   \<and> distinct (fst (run_ops game_state (pre @ post)))
   \<and> next_entity_id (snd (run_ops game_state pre))
        \<le> next_entity_id (snd (run_ops game_state (pre @ post)))
   \<and> distinct (get_entity_ids (snd (run_ops game_state (pre @ post))))"
proof -
  note whole = run_ops_facts [OF store_inv_game_state, of "pre @ post"]
  note first = run_ops_facts [OF store_inv_game_state, of pre]
  from first have inv1: "store_inv (snd (run_ops game_state pre))" by simp
  note rest = run_ops_facts [OF inv1, of post]
  from whole have sorted: "sorted_wrt (<) (fst (run_ops game_state (pre @ post)))"
    by simp
  then have "distinct (fst (run_ops game_state (pre @ post)))"
    by (simp add: strict_sorted_iff)
  moreover from rest have "next_entity_id (snd (run_ops game_state pre))
        \<le> next_entity_id (snd (run_ops game_state (pre @ post)))"
    by (simp add: run_ops_append)
  moreover from whole have "distinct (get_entity_ids (snd (run_ops game_state (pre @ post))))"
    by (simp add: store_inv_def get_entity_ids_def)
  ultimately show ?thesis using sorted by simp
qed

text \<open>
  C3. If the store holds the entity \<open>E\<close> under the identity \<open>entity_id\<close>, then after
  \<open>update_entity\<close> with the partial mapping \<open>u\<close>, \<open>get_entity_data\<close> returns an entity
  in which every attribute whose key is not a key of \<open>u\<close> has the value it has in \<open>E\<close>
  (absent if it is absent in \<open>E\<close>), and the keys of \<open>E\<close> are still there, in their order,
  in front of any new ones.
\<close>

theorem update_entity_partial_merge:
  assumes "map_of (entities s) entity_id = Some E" and "k \<notin> fst ` set u"
  shows "map_of (get_entity_data (update_entity s entity_id u) entity_id) k = map_of E k
       \<and> (\<exists>extra. map fst (get_entity_data (update_entity s entity_id u) entity_id)
                     = map fst E @ extra)"
proof -
  have "get_entity_data (update_entity s entity_id u) entity_id = dict_update E u"
    using assms(1) by (simp add: get_entity_data_def update_entity_def update_conv')
  with assms(2) show ?thesis
    using map_fst_dict_update_prefix [of E u] by (simp add: map_of_dict_update_other)
qed

theorem update_entity_partial_merge_witness:
  "map_of (entities (snd (add_entity game_state [(''name'', PStr ''First Agent'')]))) 1
     = Some [(''id'', PInt 1), (''x'', PInt 0), (''y'', PInt 0), (''status'', PStr ''Existing''),
             (''brain_active'', PBool False), (''name'', PStr ''First Agent'')]
   \<and> ''name'' \<notin> fst ` set [(''x'', PInt 7)]
   \<and> map_of (get_entity_data
        (update_entity (snd (add_entity game_state [(''name'', PStr ''First Agent'')])) 1
           [(''x'', PInt 7)]) 1) ''name'' = Some (PStr ''First Agent'')"
proof -
  have h1: "map_of (entities (snd (add_entity game_state [(''name'', PStr ''First Agent'')]))) 1
     = Some [(''id'', PInt 1), (''x'', PInt 0), (''y'', PInt 0), (''status'', PStr ''Existing''),
             (''brain_active'', PBool False), (''name'', PStr ''First Agent'')]"
    by (simp add: add_entity_def game_state_def entity_template_def dict_update_def)
  have h2: "''name'' \<notin> fst ` set [(''x'', PInt 7)]" by simp
  from update_entity_partial_merge [OF h1 h2] h1 h2 show ?thesis by simp
qed

text \<open>
  C4. \<open>add_entity\<close> is total: for every mapping \<open>a\<close> of initial attributes it returns the
  counter's value as the new identity, advances the counter by one, leaves every other
  entity as it was, and stores under the new identity the template
  \<open>id\<close>, \<open>x = 0\<close>, \<open>y = 0\<close>, \<open>status = "Existing"\<close>, \<open>brain_active = False\<close>
  overridden by \<open>a\<close>: a key of \<open>a\<close> has the value \<open>a\<close> gives it, any other key the
  template's.
\<close>

theorem add_entity_merges_over_template:
  assumes "distinct (map fst a)"
  shows "fst (add_entity s a) = next_entity_id s
       \<and> next_entity_id (snd (add_entity s a)) = next_entity_id s + 1
       \<and> map_of (get_entity_data (snd (add_entity s a)) (fst (add_entity s a))) k
           = (case map_of a k of
                Some v \<Rightarrow> Some v
              | None \<Rightarrow> map_of [(''id'', PInt (next_entity_id s)), (''x'', PInt 0), (''y'', PInt 0),
                                (''status'', PStr ''Existing''), (''brain_active'', PBool False)] k)
       \<and> (j \<noteq> next_entity_id s \<longrightarrow>
            map_of (entities (snd (add_entity s a))) j = map_of (entities s) j)"
proof -
  have "get_entity_data (snd (add_entity s a)) (fst (add_entity s a))
          = dict_update (entity_template (next_entity_id s)) a"
    by (simp add: get_entity_data_def add_entity_entities update_conv')
  then show ?thesis
    using map_of_dict_update_distinct [OF assms, of "entity_template (next_entity_id s)" k]
    by (simp add: entity_template_def add_entity_entities update_conv' split: option.splits)
qed

theorem add_entity_merges_over_template_witness:
  "distinct (map fst [(''x'', PInt 4), (''name'', PStr ''A'')])
   \<and> fst (add_entity game_state [(''x'', PInt 4), (''name'', PStr ''A'')]) = 1
   \<and> map_of (get_entity_data (snd (add_entity game_state [(''x'', PInt 4), (''name'', PStr ''A'')])) 1)
        ''x'' = Some (PInt 4)
   \<and> map_of (get_entity_data (snd (add_entity game_state [(''x'', PInt 4), (''name'', PStr ''A'')])) 1)
        ''status'' = Some (PStr ''Existing'')"
proof -
  have h: "distinct (map fst [(''x'', PInt 4), (''name'', PStr ''A'')])" by simp
  have n: "next_entity_id game_state = 1" by (simp add: game_state_def)
  from add_entity_merges_over_template [OF h, of game_state "''x''" 0]
       add_entity_merges_over_template [OF h, of game_state "''status''" 0] h n
  show ?thesis by simp
qed

text \<open>
  C5, as the code has it. The stored \<open>id\<close> attribute is an ordinary key of the entity
  dictionary: creation attributes and updates that contain the key \<open>id\<close> overwrite it.
  At the concrete inputs below the identity returned by \<open>add_entity\<close> is 1 while the
  stored \<open>id\<close> is 7, and an update turns a stored \<open>id\<close> from 1 into 99.
\<close>

theorem stored_id_can_change_counterexample:
  "fst (add_entity game_state [(''id'', PInt 7)]) = 1
   \<and> map_of (get_entity_data (snd (add_entity game_state [(''id'', PInt 7)])) 1) ''id''
        = Some (PInt 7)
   \<and> map_of (get_entity_data (snd (add_entity game_state [])) 1) ''id'' = Some (PInt 1)
   \<and> map_of (get_entity_data
        (update_entity (snd (add_entity game_state [])) 1 [(''id'', PInt 99)]) 1) ''id''
        = Some (PInt 99)"
  by (simp add: add_entity_def update_entity_def get_entity_data_def game_state_def
      entity_template_def dict_update_def)

text \<open>
  C5, amended. For every sequence of create, update and remove operations in which no
  creation mapping and no update mapping contains the key \<open>id\<close>, every entity of the
  store carries in its \<open>id\<close> attribute the identity under which it is stored, which is
  the identity that \<open>add_entity\<close> returned for it.
\<close>

theorem stored_id_is_key_when_id_not_supplied:
  assumes "list_all op_keeps_id ops"
    and "(i, d) \<in> set (entities (snd (run_ops game_state ops)))"
  shows "map_of d ''id'' = Some (PInt i)"
proof -
  have "ids_match game_state" by (simp add: ids_match_def game_state_def)
  then have "ids_match (snd (run_ops game_state ops))"
    using assms(1) by (rule ids_match_run_ops)
  with assms(2) show ?thesis by (auto simp: ids_match_def)
qed

theorem stored_id_is_key_when_id_not_supplied_witness:
  "list_all op_keeps_id [Create [(''name'', PStr ''A'')], Update 1 [(''x'', PInt 3)]]
   \<and> (1, [(''id'', PInt 1), (''x'', PInt 3), (''y'', PInt 0), (''status'', PStr ''Existing''),
           (''brain_active'', PBool False), (''name'', PStr ''A'')])
       \<in> set (entities (snd (run_ops game_state
              [Create [(''name'', PStr ''A'')], Update 1 [(''x'', PInt 3)]])))
   \<and> map_of [(''id'', PInt 1), (''x'', PInt 3), (''y'', PInt 0), (''status'', PStr ''Existing''),
           (''brain_active'', PBool False), (''name'', PStr ''A'')] ''id'' = Some (PInt 1)"
proof -
  have h1: "list_all op_keeps_id [Create [(''name'', PStr ''A'')], Update 1 [(''x'', PInt 3)]]"
    by simp
  have h2: "(1, [(''id'', PInt 1), (''x'', PInt 3), (''y'', PInt 0), (''status'', PStr ''Existing''),
           (''brain_active'', PBool False), (''name'', PStr ''A'')])
       \<in> set (entities (snd (run_ops game_state
              [Create [(''name'', PStr ''A'')], Update 1 [(''x'', PInt 3)]])))"
    by (simp add: add_entity_def update_entity_def game_state_def entity_template_def
        dict_update_def)
  from stored_id_is_key_when_id_not_supplied [OF h1 h2] h1 h2 show ?thesis by simp
qed

text \<open>
  C6. \<open>get_entity_data\<close> is total and returns the empty dictionary, the value its
  docstring designates for an identity that is not found, in both cases of the claim:
  for an identity that no create of the history returned, and for an identity that was
  returned by a create and removed afterwards, whatever operations follow.
\<close>

theorem get_entity_data_absent:
  "(entity_id \<notin> set (fst (run_ops game_state ops)) \<longrightarrow>
      get_entity_data (snd (run_ops game_state ops)) entity_id = [])
   \<and> (entity_id \<in> set (fst (run_ops game_state pre)) \<longrightarrow>
      get_entity_data (snd (run_ops game_state (pre @ Remove entity_id # post))) entity_id = [])"
proof (intro conjI impI)
  assume never: "entity_id \<notin> set (fst (run_ops game_state ops))"
  from run_ops_facts [OF store_inv_game_state, of ops]
  have "fst ` set (entities (snd (run_ops game_state ops))) \<subseteq> set (fst (run_ops game_state ops))"
    by (simp add: game_state_def)
  with never have "entity_id \<notin> fst ` set (entities (snd (run_ops game_state ops)))" by blast
  then show "get_entity_data (snd (run_ops game_state ops)) entity_id = []"
    by (rule absent_get_entity_data)
next
  assume issued: "entity_id \<in> set (fst (run_ops game_state pre))"
  let ?s1 = "snd (run_ops game_state pre)"
  let ?s2 = "remove_entity ?s1 entity_id"
  note first = run_ops_facts [OF store_inv_game_state, of pre]
  from first have inv1: "store_inv ?s1" by simp
  from first issued have below: "entity_id < next_entity_id ?s1" by blast
  have inv2: "store_inv ?s2" using inv1 by (rule store_inv_remove)
  note rest = run_ops_facts [OF inv2, of post]
  have final: "snd (run_ops game_state (pre @ Remove entity_id # post)) = snd (run_ops ?s2 post)"
    by (simp add: run_ops_append case_prod_beta)
  from rest below have "entity_id \<notin> set (fst (run_ops ?s2 post))" by auto
  moreover have "entity_id \<notin> fst ` set (entities ?s2)" by simp
  ultimately have "entity_id \<notin> fst ` set (entities (snd (run_ops ?s2 post)))"
    using rest by blast
  then show "get_entity_data (snd (run_ops game_state (pre @ Remove entity_id # post))) entity_id = []"
    unfolding final by (rule absent_get_entity_data)
qed

theorem get_entity_data_absent_witness:
  "5 \<notin> set (fst (run_ops game_state [Create [], Create []]))
   \<and> get_entity_data (snd (run_ops game_state [Create [], Create []])) 5 = []
   \<and> 1 \<in> set (fst (run_ops game_state [Create [], Create []]))
   \<and> get_entity_data (snd (run_ops game_state ([Create [], Create []] @ Remove 1 # [Create []]))) 1
       = []"
proof -
  have h1: "5 \<notin> set (fst (run_ops game_state [Create [], Create []]))"
    by (simp add: game_state_def)
  have h2: "1 \<in> set (fst (run_ops game_state [Create [], Create []]))"
    by (simp add: game_state_def)
  from get_entity_data_absent [of 5 "[Create [], Create []]" "[]" "[]"]
       get_entity_data_absent [of 1 "[]" "[Create [], Create []]" "[Create []]"] h1 h2
  show ?thesis by blast
qed

text \<open>
  C7. For an identity that is not in the store, \<open>update_entity\<close> returns the store it
  was given: entities and counter are unchanged, and no error is possible (the function
  is total).
\<close>

theorem update_entity_absent_noop:
  assumes "entity_id \<notin> set (get_entity_ids s)"
  shows "update_entity s entity_id u = s"
proof -
  from assms have "map_of (entities s) entity_id = None"
    by (simp add: get_entity_ids_def map_of_eq_None_iff)
  then show ?thesis by (simp add: update_entity_def)
qed

theorem update_entity_absent_noop_witness:
  "9 \<notin> set (get_entity_ids (snd (add_entity game_state [])))
   \<and> update_entity (snd (add_entity game_state [])) 9 [(''x'', PInt 1)]
       = snd (add_entity game_state [])"
proof -
  have h: "9 \<notin> set (get_entity_ids (snd (add_entity game_state [])))"
    by (simp add: get_entity_ids_def add_entity_def game_state_def)
  from update_entity_absent_noop [OF h] h show ?thesis by simp
qed

section \<open>Claims about the grid\<close>

text \<open>
  C10, as the code has it. The centre is a float, and a float has 53 significant bits.
  For the cell size 1 and the column \<open>2\<^sup>5\<^sup>3 + 1 = 9007199254740993\<close> the product
  \<open>col * cell_size\<close> is rounded to \<open>2\<^sup>5\<^sup>3\<close> when it is converted for the addition, the sum
  with 0.5 is rounded to \<open>2\<^sup>5\<^sup>3\<close> again, and \<open>screen_to_grid\<close> returns the column
  \<open>2\<^sup>5\<^sup>3\<close>, not the column it started from.
\<close>

theorem grid_round_trip_counterexample:
  "grid_to_screen_center 1 9007199254740993 0 = Inr (Fin 9007199254740992, Fin (1 / 2))
   \<and> screen_to_grid 1 (PFloat (Fin 9007199254740992)) (PFloat (Fin (1 / 2)))
       = Inr (9007199254740992, 0)"
  by (simp add: eval_defs)

text \<open>
  C10, amended. For grid indices \<open>col, row \<ge> 0\<close> and an integer cell size \<open>> 0\<close> with
  \<open>(2 col + 1) cell_size < 2\<^sup>5\<^sup>3\<close> and \<open>(2 row + 1) cell_size < 2\<^sup>5\<^sup>3\<close>,
  \<open>grid_to_screen_center\<close> returns the centre without error and \<open>screen_to_grid\<close> maps
  the centre back to \<open>(col, row)\<close>.
\<close>

theorem grid_round_trip_within_53_bits:
  assumes "0 \<le> col" and "0 \<le> row" and "0 < cell_size"
    and "(2 * col + 1) * cell_size < 2 ^ 53" and "(2 * row + 1) * cell_size < 2 ^ 53"
  shows "\<exists>center_x center_y.
           grid_to_screen_center cell_size col row = Inr (center_x, center_y)
           \<and> screen_to_grid cell_size (PFloat center_x) (PFloat center_y) = Inr (col, row)"
proof -
  from center_round_trip [OF assms(1,3,4)] obtain cx
    where cx: "cell_center cell_size col = Inr cx"
      and bx: "bind_err (py_floordiv_int (PFloat cx) cell_size) py_int = Inr col"
    by blast
  from center_round_trip [OF assms(2,3,5)] obtain cy
    where cy: "cell_center cell_size row = Inr cy"
      and by': "bind_err (py_floordiv_int (PFloat cy) cell_size) py_int = Inr row"
    by blast
  from bx obtain qx where qx: "py_floordiv_int (PFloat cx) cell_size = Inr qx"
    and ix: "py_int qx = Inr col"
    by (auto simp: bind_err_Inr_iff)
  from by' obtain qy where qy: "py_floordiv_int (PFloat cy) cell_size = Inr qy"
    and iy: "py_int qy = Inr row"
    by (auto simp: bind_err_Inr_iff)
  have "grid_to_screen_center cell_size col row = Inr (cx, cy)"
    by (simp add: grid_to_screen_center_def cx cy)
  moreover have "screen_to_grid cell_size (PFloat cx) (PFloat cy) = Inr (col, row)"
    by (simp add: screen_to_grid_def qx ix qy iy)
  ultimately show ?thesis by blast
qed

theorem grid_round_trip_within_53_bits_witness:
  "(0::int) \<le> 3 \<and> (0::int) \<le> 5 \<and> (0::int) < 40
   \<and> (2 * 3 + 1) * 40 < (2::int) ^ 53 \<and> (2 * 5 + 1) * 40 < (2::int) ^ 53
   \<and> (\<exists>center_x center_y.
           grid_to_screen_center 40 3 5 = Inr (center_x, center_y)
           \<and> screen_to_grid 40 (PFloat center_x) (PFloat center_y) = Inr (3, 5))"
proof -
  have h: "(0::int) \<le> 3" "(0::int) \<le> 5" "(0::int) < 40"
    "(2 * 3 + 1) * 40 < (2::int) ^ 53" "(2 * 5 + 1) * 40 < (2::int) ^ 53"
    by simp_all
  from grid_round_trip_within_53_bits [OF h] h show ?thesis by blast
qed

end
